theory Spec2Isabelle
  imports Main "HOL-Library.AList" "HOL-Library.Multiset"
begin

section \<open>Data model of the LRU tree cache (cache.go)\<close>

text \<open>
  The Go code works on heap objects linked by pointers: \<open>treeNode\<close> values are reached
  from the key table, from their parent's \<open>children\<close> map, from the \<open>parent\<close> field of
  their children and from the recency list. Pointer identity matters (a removed node can
  still be referenced), so the embedding keeps an explicit store: an address is an index
  into the list \<open>heap\<close>, allocation appends, and Go never frees a node that is still
  referenced.
\<close>

datatype error = ErrRootAlreadyExists | ErrParentNotExist | ErrAlreadyExists | ErrCycleDetected

text \<open>The calls made on the \<open>StatsCollector\<close> collaborator, recorded in call order.\<close>

datatype stat_call = SetAmount int | IncHits | IncMisses | AddEvictions int

type_synonym addr = nat

record ('k, 'v) CacheNode =
  Key :: 'k
  Value :: 'v
  ParentKey :: 'k

text \<open>
  \<open>treeNode\<close>: the field \<open>lruElem\<close> is the node's own element of the recency list; the
  element is identified with the node's address, and whether it currently belongs to the
  list is read off the list itself. \<open>children\<close> is a Go map; it is kept as an association
  list with distinct keys. The order of the association list has no meaning for the
  program: the order in which \<open>range\<close> yields the entries is a parameter of the walks
  (see below).
\<close>

record ('k, 'v) treeNode =
  key :: 'k
  val :: 'v
  parent :: "addr option"
  children :: "('k \<times> addr) list"

record ('k, 'v) Cache =
  maxEntries :: int
  onEvict :: bool
  stats :: "stat_call list"
  keysMap :: "('k \<times> addr) list"
  lruList :: "addr list"
  root :: "addr option"
  heap :: "('k, 'v) treeNode list"

definition newTreeNode :: "'k \<Rightarrow> 'v \<Rightarrow> addr option \<Rightarrow> ('k, 'v) treeNode" where
  "newTreeNode k v p = \<lparr>key = k, val = v, parent = p, children = []\<rparr>"

text \<open>
  \<open>removeFromParent\<close>: returns at once when the parent pointer is nil; otherwise deletes
  the entry for the node's key from the parent's children map, then clears the pointer.
\<close>

definition removeFromParent :: "addr \<Rightarrow> ('k, 'v) treeNode list \<Rightarrow> ('k, 'v) treeNode list" where
  "removeFromParent n h =
     (case parent (h ! n) of
        None \<Rightarrow> h
      | Some p \<Rightarrow>
          (let h1 = h[p := (h ! p)\<lparr>children := AList.delete (key (h ! n)) (children (h ! p))\<rparr>]
           in h1[n := (h1 ! n)\<lparr>parent := None\<rparr>]))"

text \<open>\<open>parentKey\<close>: the parent's key, or the zero value of the key type for a nil parent.\<close>

definition parentKey :: "('k::zero, 'v) treeNode list \<Rightarrow> addr \<Rightarrow> 'k" where
  "parentKey h n = (case parent (h ! n) of Some p \<Rightarrow> key (h ! p) | None \<Rightarrow> 0)"

definition cacheNodeOf :: "('k::zero, 'v) treeNode list \<Rightarrow> addr \<Rightarrow> ('k, 'v) CacheNode" where
  "cacheNodeOf h n = \<lparr>Key = key (h ! n), Value = val (h ! n), ParentKey = parentKey h n\<rparr>"

subsection \<open>Iteration over a children map\<close>

text \<open>
  A children map is kept as an association list. \<open>for _, child := range n.children\<close>
  yields the entries of the map in an order that Go leaves unspecified and that can
  differ from one loop to the next. The two walks that range over children maps
  (\<open>traverse\<close> and \<open>removeRecursively\<close>) therefore take the order as a parameter:
  \<open>ord n es\<close> is the sequence in which the loop over the children map of the node \<open>n\<close>,
  whose entries are \<open>es\<close>, yields them. Every public call that ranges over children
  maps carries its own order; within one call, a loop over the same node with the same
  entries yields the same sequence.
\<close>

type_synonym 'k rangeOrd = "addr \<Rightarrow> ('k \<times> addr) list \<Rightarrow> ('k \<times> addr) list"

subsection \<open>The recency list (container/list of the Go standard library)\<close>

text \<open>
  The list holds node addresses, front first. As documented for \<open>container/list\<close>,
  \<open>MoveToFront\<close> and \<open>Remove\<close> leave the list alone when the element is not an element
  of it (an element that was removed stays detached for good).
\<close>

definition PushFront :: "addr \<Rightarrow> addr list \<Rightarrow> addr list" where
  "PushFront a l = a # l"

definition MoveToFront :: "addr \<Rightarrow> addr list \<Rightarrow> addr list" where
  "MoveToFront a l = (if a \<in> set l then a # remove1 a l else l)"

definition listRemove :: "addr \<Rightarrow> addr list \<Rightarrow> addr list" where
  "listRemove a l = remove1 a l"

definition NewCache :: "int \<Rightarrow> bool \<Rightarrow> ('k, 'v) Cache" where
  "NewCache n cb = \<lparr>maxEntries = n, onEvict = cb, stats = [], keysMap = [], lruList = [],
     root = None, heap = []\<rparr>"


section \<open>Operations\<close>

text \<open>
  The loops \<open>for n := node; n != nil; n = n.parent\<close> follow parent pointers; they return
  only when the chain reaches nil. Each is a recursive function whose value is \<open>None\<close>
  when the loop does not return.
\<close>

partial_function (option) promote ::
  "('k, 'v) treeNode list \<Rightarrow> addr option \<Rightarrow> addr list \<Rightarrow> addr list option" where
  "promote h n l =
     (case n of None \<Rightarrow> Some l | Some a \<Rightarrow> promote h (parent (h ! a)) (MoveToFront a l))"

declare promote.simps [code]

definition Peek :: "('k::zero, 'v) Cache \<Rightarrow> 'k \<Rightarrow> ('k, 'v) Cache \<times> ('k, 'v) CacheNode option" where
  "Peek c k =
     (case map_of (keysMap c) k of
        None \<Rightarrow> (c\<lparr>stats := stats c @ [IncMisses]\<rparr>, None)
      | Some n \<Rightarrow>
          (c\<lparr>stats := stats c @ [IncHits]\<rparr>,
           Some \<lparr>Key = k, Value = val (heap c ! n), ParentKey = parentKey (heap c) n\<rparr>))"

definition Get ::
  "('k::zero, 'v) Cache \<Rightarrow> 'k \<Rightarrow> (('k, 'v) Cache \<times> ('k, 'v) CacheNode option) option" where
  "Get c k =
     (case map_of (keysMap c) k of
        None \<Rightarrow> Some (c\<lparr>stats := stats c @ [IncMisses]\<rparr>, None)
      | Some n \<Rightarrow>
          (case promote (heap c) (Some n) (lruList c) of
             None \<Rightarrow> None
           | Some l \<Rightarrow>
               Some (c\<lparr>lruList := l, stats := stats c @ [IncHits]\<rparr>,
                     Some \<lparr>Key = k, Value = val (heap c ! n), ParentKey = parentKey (heap c) n\<rparr>)))"

definition Len :: "('k, 'v) Cache \<Rightarrow> int" where
  "Len c = int (length (keysMap c))"

definition AddRoot :: "('k, 'v) Cache \<Rightarrow> 'k \<Rightarrow> 'v \<Rightarrow> ('k, 'v) Cache \<times> error option" where
  "AddRoot c k v =
     (if root c \<noteq> None then (c, Some ErrRootAlreadyExists)
      else
        (let r = length (heap c);
             h = heap c @ [newTreeNode k v None];
             l = PushFront r (lruList c);
             km = AList.update k r (keysMap c)
         in (c\<lparr>root := Some r, heap := h, lruList := l, keysMap := km,
                stats := stats c @ [SetAmount (int (length km))]\<rparr>, None)))"

text \<open>
  \<open>evict\<close>: takes the back element of the recency list out of the list, deletes the key
  of its node from the key table and detaches the node from its parent. There is no test
  on the node's children.
\<close>

definition evict :: "('k::zero, 'v) Cache \<Rightarrow> ('k, 'v) Cache \<times> ('k, 'v) CacheNode option" where
  "evict c =
     (if lruList c = [] then (c, None)
      else
        (let t = last (lruList c);
             l = butlast (lruList c);
             pk = parentKey (heap c) t;
             km = AList.delete (key (heap c ! t)) (keysMap c);
             h = removeFromParent t (heap c)
         in (c\<lparr>lruList := l, keysMap := km, heap := h\<rparr>,
             Some \<lparr>Key = key (heap c ! t), Value = val (heap c ! t), ParentKey = pk\<rparr>)))"

text \<open>
  \<open>Add\<close> and \<open>AddOrUpdate\<close> return the new cache, the error (if any) and the list of
  calls made on the eviction callback by the deferred function (none or one). Their
  common statements are named once each:
  \<^item> \<open>insertNode\<close>: create the node, register it in the key table, push it to the
    front of the recency list, enter it in the parent's children map;
  \<^item> \<open>promoteAncestors\<close>: the loop \<open>for n := node.parent; n != nil; n = n.parent\<close>;
  \<^item> \<open>evictIfOver\<close>: the capacity test and the call of \<open>evict\<close>;
  \<^item> \<open>promoteAndEvict\<close>: these two, then \<open>c.stats.SetAmount(len(c.keysMap))\<close>, which
    is the only call on the stats collaborator there.
\<close>

definition insertNode :: "('k, 'v) Cache \<Rightarrow> 'k \<Rightarrow> 'v \<Rightarrow> addr \<Rightarrow> ('k, 'v) Cache" where
  "insertNode c k v p =
     (let n = length (heap c);
          h1 = heap c @ [newTreeNode k v (Some p)];
          km = AList.update k n (keysMap c);
          l1 = PushFront n (lruList c);
          h2 = h1[p := (h1 ! p)\<lparr>children := AList.update k n (children (h1 ! p))\<rparr>]
      in c\<lparr>keysMap := km, lruList := l1, heap := h2\<rparr>)"

definition promoteAncestors :: "('k, 'v) Cache \<Rightarrow> addr \<Rightarrow> ('k, 'v) Cache option" where
  "promoteAncestors c n =
     (case promote (heap c) (parent (heap c ! n)) (lruList c) of
        None \<Rightarrow> None
      | Some l \<Rightarrow> Some (c\<lparr>lruList := l\<rparr>))"

definition evictIfOver ::
  "('k::zero, 'v) Cache \<Rightarrow> ('k, 'v) Cache \<times> ('k, 'v) CacheNode option" where
  "evictIfOver c =
     (if maxEntries c > 0 \<and> int (length (lruList c)) > maxEntries c then evict c
      else (c, None))"

definition promoteAndEvict ::
  "('k::zero, 'v) Cache \<Rightarrow> addr \<Rightarrow>
     (('k, 'v) Cache \<times> error option \<times> ('k, 'v) CacheNode list) option" where
  "promoteAndEvict c n =
     (case promoteAncestors c n of
        None \<Rightarrow> None
      | Some c1 \<Rightarrow>
          (let r = evictIfOver c1;
               c2 = fst r;
               c3 = c2\<lparr>stats := stats c2 @ [SetAmount (int (length (keysMap c2)))]\<rparr>
           in Some (c3, None,
                    if onEvict c then (case snd r of None \<Rightarrow> [] | Some e \<Rightarrow> [e]) else [])))"

definition Add ::
  "('k::zero, 'v) Cache \<Rightarrow> 'k \<Rightarrow> 'v \<Rightarrow> 'k \<Rightarrow>
     (('k, 'v) Cache \<times> error option \<times> ('k, 'v) CacheNode list) option" where
  "Add c k v pk =
     (case map_of (keysMap c) pk of
        None \<Rightarrow> Some (c, Some ErrParentNotExist, [])
      | Some p \<Rightarrow>
          if map_of (keysMap c) k \<noteq> None then Some (c, Some ErrAlreadyExists, [])
          else promoteAndEvict (insertNode c k v p) (length (heap c)))"

text \<open>
  The cycle check of \<open>AddOrUpdate\<close>: walk from the new parent upwards and report whether
  the node itself is met.
\<close>

partial_function (option) cycleCheck ::
  "('k, 'v) treeNode list \<Rightarrow> addr option \<Rightarrow> addr \<Rightarrow> bool option" where
  "cycleCheck h par n =
     (case par of
        None \<Rightarrow> Some False
      | Some p \<Rightarrow> if p = n then Some True else cycleCheck h (parent (h ! p)) n)"

declare cycleCheck.simps [code]

text \<open>
  The two ways \<open>AddOrUpdate\<close> treats an existing node, up to and including its
  \<open>MoveToFront\<close>: \<open>relinkNode\<close> for a node whose parent changes (detach from the old
  parent, set the parent pointer, enter the node in the new parent's children map, store
  the value), \<open>updateNode\<close> for a node that keeps its parent (store the value).
\<close>

definition relinkNode ::
  "('k, 'v) Cache \<Rightarrow> 'k \<Rightarrow> 'v \<Rightarrow> addr \<Rightarrow> addr \<Rightarrow> ('k, 'v) Cache" where
  "relinkNode c k v n p =
     (let h1 = removeFromParent n (heap c);
          h2 = h1[n := (h1 ! n)\<lparr>parent := Some p\<rparr>];
          h3 = h2[p := (h2 ! p)\<lparr>children := AList.update k n (children (h2 ! p))\<rparr>];
          h4 = h3[n := (h3 ! n)\<lparr>val := v\<rparr>]
      in c\<lparr>heap := h4, lruList := MoveToFront n (lruList c)\<rparr>)"

definition updateNode :: "('k, 'v) Cache \<Rightarrow> 'v \<Rightarrow> addr \<Rightarrow> ('k, 'v) Cache" where
  "updateNode c v n =
     (let h = heap c
      in c\<lparr>heap := h[n := (h ! n)\<lparr>val := v\<rparr>], lruList := MoveToFront n (lruList c)\<rparr>)"

definition AddOrUpdate ::
  "('k::zero, 'v) Cache \<Rightarrow> 'k \<Rightarrow> 'v \<Rightarrow> 'k \<Rightarrow>
     (('k, 'v) Cache \<times> error option \<times> ('k, 'v) CacheNode list) option" where
  "AddOrUpdate c k v pk =
     (case map_of (keysMap c) pk of
        None \<Rightarrow> Some (c, Some ErrParentNotExist, [])
      | Some p \<Rightarrow>
          (case map_of (keysMap c) k of
             Some n \<Rightarrow>
               (if parent (heap c ! n) \<noteq> Some p then
                  (case cycleCheck (heap c) (Some p) n of
                     None \<Rightarrow> None
                   | Some True \<Rightarrow> Some (c, Some ErrCycleDetected, [])
                   | Some False \<Rightarrow> promoteAndEvict (relinkNode c k v n p) n)
                else promoteAndEvict (updateNode c v n) n)
           | None \<Rightarrow> promoteAndEvict (insertNode c k v p) (length (heap c))))"

text \<open>
  \<open>PeekBranch\<close> and \<open>GetBranch\<close> count the chain, allocate the slice and fill it from
  the last index downwards while walking from the node to the root; the slice is built
  here by prepending, which gives the same sequence. \<open>GetBranch\<close> moves each node to
  the front inside that same loop, that is, in the order node, parent, ..., root.
\<close>

partial_function (option) peekBranchLoop ::
  "('k::zero, 'v) treeNode list \<Rightarrow> addr option \<Rightarrow> ('k, 'v) CacheNode list \<Rightarrow>
     ('k, 'v) CacheNode list option" where
  "peekBranchLoop h n branch =
     (case n of
        None \<Rightarrow> Some branch
      | Some a \<Rightarrow> peekBranchLoop h (parent (h ! a)) (cacheNodeOf h a # branch))"

declare peekBranchLoop.simps [code]

definition PeekBranch ::
  "('k::zero, 'v) Cache \<Rightarrow> 'k \<Rightarrow> (('k, 'v) Cache \<times> ('k, 'v) CacheNode list) option" where
  "PeekBranch c k =
     (case map_of (keysMap c) k of
        None \<Rightarrow> Some (c\<lparr>stats := stats c @ [IncMisses]\<rparr>, [])
      | Some n \<Rightarrow>
          (case peekBranchLoop (heap c) (Some n) [] of
             None \<Rightarrow> None
           | Some branch \<Rightarrow> Some (c\<lparr>stats := stats c @ [IncHits]\<rparr>, branch)))"

partial_function (option) getBranchLoop ::
  "('k::zero, 'v) treeNode list \<Rightarrow> addr option \<Rightarrow> ('k, 'v) CacheNode list \<Rightarrow> addr list \<Rightarrow>
     (('k, 'v) CacheNode list \<times> addr list) option" where
  "getBranchLoop h n branch l =
     (case n of
        None \<Rightarrow> Some (branch, l)
      | Some a \<Rightarrow> getBranchLoop h (parent (h ! a)) (cacheNodeOf h a # branch) (MoveToFront a l))"

declare getBranchLoop.simps [code]

definition GetBranch ::
  "('k::zero, 'v) Cache \<Rightarrow> 'k \<Rightarrow> (('k, 'v) Cache \<times> ('k, 'v) CacheNode list) option" where
  "GetBranch c k =
     (case map_of (keysMap c) k of
        None \<Rightarrow> Some (c\<lparr>stats := stats c @ [IncMisses]\<rparr>, [])
      | Some n \<Rightarrow>
          (case getBranchLoop (heap c) (Some n) [] (lruList c) of
             None \<Rightarrow> None
           | Some (branch, l) \<Rightarrow>
               Some (c\<lparr>lruList := l, stats := stats c @ [IncHits]\<rparr>, branch)))"


text \<open>
  \<open>TraverseToRoot\<close>: the callback \<open>f\<close> is called for the node and then for each ancestor;
  the calls are recorded, in order, as the triples \<open>f\<close> receives. The promotion loop is
  deferred and runs after the visits.
\<close>

partial_function (option) visitToRoot ::
  "('k::zero, 'v) treeNode list \<Rightarrow> addr option \<Rightarrow> ('k, 'v) CacheNode list \<Rightarrow>
     ('k, 'v) CacheNode list option" where
  "visitToRoot h n calls =
     (case n of
        None \<Rightarrow> Some calls
      | Some a \<Rightarrow> visitToRoot h (parent (h ! a)) (calls @ [cacheNodeOf h a]))"

declare visitToRoot.simps [code]

definition TraverseToRoot ::
  "('k::zero, 'v) Cache \<Rightarrow> 'k \<Rightarrow> (('k, 'v) Cache \<times> ('k, 'v) CacheNode list) option" where
  "TraverseToRoot c k =
     (case map_of (keysMap c) k of
        None \<Rightarrow> Some (c\<lparr>stats := stats c @ [IncMisses]\<rparr>, [])
      | Some n \<Rightarrow>
          (case visitToRoot (heap c) (Some n) [] of
             None \<Rightarrow> None
           | Some calls \<Rightarrow>
               (case promote (heap c) (Some n) (lruList c) of
                  None \<Rightarrow> None
                | Some l \<Rightarrow> Some (c\<lparr>lruList := l, stats := stats c @ [IncHits]\<rparr>, calls))))"

text \<open>
  \<open>TraverseSubtree\<close>: the recursive closure \<open>traverse\<close> registers
  \<open>defer c.lruList.MoveToFront(n.lruElem)\<close> first, calls \<open>f\<close>, stops at the depth limit or
  recurses into the children, and only then returns, which runs the deferred call. The
  recursion is written with its call stack made explicit: \<open>Call n d\<close> is a pending call
  \<open>traverse(n, d)\<close>, \<open>Deferred n\<close> is the deferred \<open>MoveToFront\<close> of a call whose body
  has been entered. After the walk a second deferred function promotes the ancestors of
  the start node. A depth limit of \<open>-1\<close> is the default (no limit). The children of a
  node are read when its call is entered; the walk itself changes no children map.
\<close>

datatype frame = Call addr int | Deferred addr

partial_function (option) traverse ::
  "'k rangeOrd \<Rightarrow> ('k::zero, 'v) treeNode list \<Rightarrow> int \<Rightarrow> frame list \<Rightarrow>
     ('k, 'v) CacheNode list \<Rightarrow> addr list \<Rightarrow> (('k, 'v) CacheNode list \<times> addr list) option" where
  "traverse ord h maxDepth stack calls l =
     (case stack of
        [] \<Rightarrow> Some (calls, l)
      | fr # rest \<Rightarrow>
          (case fr of
             Call n d \<Rightarrow>
               if maxDepth \<ge> 0 \<and> d \<ge> maxDepth
               then traverse ord h maxDepth (Deferred n # rest) (calls @ [cacheNodeOf h n]) l
               else traverse ord h maxDepth
                      (map (\<lambda>kc. Call (snd kc) (d + 1)) (ord n (children (h ! n)))
                         @ Deferred n # rest)
                      (calls @ [cacheNodeOf h n]) l
           | Deferred n \<Rightarrow> traverse ord h maxDepth rest calls (MoveToFront n l)))"

declare traverse.simps [code]

definition TraverseSubtree ::
  "'k rangeOrd \<Rightarrow> ('k::zero, 'v) Cache \<Rightarrow> 'k \<Rightarrow> int \<Rightarrow>
     (('k, 'v) Cache \<times> ('k, 'v) CacheNode list) option" where
  "TraverseSubtree ord c k maxDepth =
     (case map_of (keysMap c) k of
        None \<Rightarrow> Some (c\<lparr>stats := stats c @ [IncMisses]\<rparr>, [])
      | Some n \<Rightarrow>
          (case traverse ord (heap c) maxDepth [Call n 0] [] (lruList c) of
             None \<Rightarrow> None
           | Some (calls, l1) \<Rightarrow>
               (case promote (heap c) (parent (heap c ! n)) l1 of
                  None \<Rightarrow> None
                | Some l2 \<Rightarrow> Some (c\<lparr>lruList := l2, stats := stats c @ [IncHits]\<rparr>, calls))))"

text \<open>
  \<open>Remove\<close>: the closure \<open>removeRecursively\<close> deletes the node's key from the key table,
  sets the node's parent pointer to nil, counts, takes the node out of the recency
  list, recurses into the children and finally sets the node's children map to nil
  (\<open>RClear\<close>). Only after the recursion does \<open>Remove\<close> call \<open>removeFromParent\<close> on the
  start node. The children of a node are read when its call is entered; the recursion
  below a node changes that node's own children map only if the node is met again
  among its own descendants, which needs a cycle in the children maps.
\<close>

datatype rframe = RCall addr | RClear addr

partial_function (option) removeRecursively ::
  "'k rangeOrd \<Rightarrow> rframe list \<Rightarrow> ('k \<times> addr) list \<Rightarrow> ('k, 'v) treeNode list \<Rightarrow> addr list \<Rightarrow>
     int \<Rightarrow> (('k \<times> addr) list \<times> ('k, 'v) treeNode list \<times> addr list \<times> int) option" where
  "removeRecursively ord stack km h l removedCount =
     (case stack of
        [] \<Rightarrow> Some (km, h, l, removedCount)
      | fr # rest \<Rightarrow>
          (case fr of
             RCall n \<Rightarrow>
               removeRecursively ord
                 (map (\<lambda>kc. RCall (snd kc)) (ord n (children (h ! n))) @ RClear n # rest)
                 (AList.delete (key (h ! n)) km)
                 (h[n := (h ! n)\<lparr>parent := None\<rparr>])
                 (listRemove n l)
                 (removedCount + 1)
           | RClear n \<Rightarrow>
               removeRecursively ord rest km (h[n := (h ! n)\<lparr>children := []\<rparr>]) l
                 removedCount))"

declare removeRecursively.simps [code]

definition Remove ::
  "'k rangeOrd \<Rightarrow> ('k, 'v) Cache \<Rightarrow> 'k \<Rightarrow> (('k, 'v) Cache \<times> int) option" where
  "Remove ord c k =
     (case map_of (keysMap c) k of
        None \<Rightarrow> Some (c, 0)
      | Some n \<Rightarrow>
          (case removeRecursively ord [RCall n] (keysMap c) (heap c) (lruList c) 0 of
             None \<Rightarrow> None
           | Some (km, h, l, removedCount) \<Rightarrow>
               Some (c\<lparr>keysMap := km, heap := removeFromParent n h, lruList := l,
                       stats := stats c @ [SetAmount (int (length km))]\<rparr>, removedCount)))"


section \<open>Sequences of public operations\<close>

text \<open>
  A public call with its arguments; \<open>TraverseSubtree\<close> and \<open>Remove\<close> carry the iteration
  order of their loops over children maps. \<open>run\<close> makes a sequence of calls and drops
  their results; it is \<open>None\<close> when one of the calls does not return.
\<close>

datatype ('k, 'v) operation =
    OpAddRoot 'k 'v
  | OpAdd 'k 'v 'k
  | OpAddOrUpdate 'k 'v 'k
  | OpGet 'k
  | OpPeek 'k
  | OpGetBranch 'k
  | OpPeekBranch 'k
  | OpTraverseToRoot 'k
  | OpTraverseSubtree 'k int "'k rangeOrd"
  | OpRemove 'k "'k rangeOrd"

fun apply_op :: "('k::zero, 'v) Cache \<Rightarrow> ('k, 'v) operation \<Rightarrow> ('k, 'v) Cache option" where
  "apply_op c (OpAddRoot k v) = Some (fst (AddRoot c k v))"
| "apply_op c (OpAdd k v pk) = map_option fst (Add c k v pk)"
| "apply_op c (OpAddOrUpdate k v pk) = map_option fst (AddOrUpdate c k v pk)"
| "apply_op c (OpGet k) = map_option fst (Get c k)"
| "apply_op c (OpPeek k) = Some (fst (Peek c k))"
| "apply_op c (OpGetBranch k) = map_option fst (GetBranch c k)"
| "apply_op c (OpPeekBranch k) = map_option fst (PeekBranch c k)"
| "apply_op c (OpTraverseToRoot k) = map_option fst (TraverseToRoot c k)"
| "apply_op c (OpTraverseSubtree k d ord) = map_option fst (TraverseSubtree ord c k d)"
| "apply_op c (OpRemove k ord) = map_option fst (Remove ord c k)"

fun run :: "('k::zero, 'v) Cache \<Rightarrow> ('k, 'v) operation list \<Rightarrow> ('k, 'v) Cache option" where
  "run c [] = Some c"
| "run c (x # xs) = (case apply_op c x of None \<Rightarrow> None | Some c' \<Rightarrow> run c' xs)"


section \<open>Notions used to state the properties\<close>

text \<open>
  \<open>pathToRoot h n as\<close>: the loop \<open>for x := n; x != nil; x = x.parent\<close> meets exactly the
  nodes \<open>as\<close>, in this order, and then reaches nil. The first node is \<open>n\<close> itself, the
  last one has no parent.
\<close>

fun pathToRoot :: "('k, 'v) treeNode list \<Rightarrow> addr option \<Rightarrow> addr list \<Rightarrow> bool" where
  "pathToRoot h None as = (as = [])"
| "pathToRoot h (Some a) [] = False"
| "pathToRoot h (Some a) (b # bs) = (a = b \<and> pathToRoot h (parent (h ! a)) bs)"

text \<open>\<open>getLRUOrder\<close> (test helper of the repository): the keys along the recency list.\<close>

definition getLRUOrder :: "('k, 'v) Cache \<Rightarrow> 'k list" where
  "getLRUOrder c = map (\<lambda>a. key (heap c ! a)) (lruList c)"

text \<open>
  An iteration order is admissible when it only reorders the entries of the map:
  \<open>rangeOrder ord\<close>. \<open>insertionOrder\<close> is the admissible order that yields the entries
  as the association list holds them, \<open>reverseOrder\<close> the one that yields them back to
  front.
\<close>

definition rangeOrder :: "'k rangeOrd \<Rightarrow> bool" where
  "rangeOrder ord = (\<forall>n es. mset (ord n es) = mset es)"

definition insertionOrder :: "'k rangeOrd" where
  "insertionOrder n es = es"

definition reverseOrder :: "'k rangeOrd" where
  "reverseOrder n es = rev es"

text \<open>A public call is admissible when the iteration order it carries is.\<close>

fun admissible :: "('k, 'v) operation \<Rightarrow> bool" where
  "admissible (OpTraverseSubtree k d ord) = rangeOrder ord"
| "admissible (OpRemove k ord) = rangeOrder ord"
| "admissible x = True"

text \<open>
  The part of the store that hangs below a node through the children maps, as a finite
  tree of addresses: \<open>shape ord h t\<close> holds when, at every node of \<open>t\<close>, the loop over
  the children map yields exactly the roots of the subtrees, in this order. \<open>preorder\<close>
  and \<open>postorder\<close> are the two depth-first orders of its nodes.
\<close>

datatype ntree = NT addr "ntree list"

fun rootOf :: "ntree \<Rightarrow> addr" where
  "rootOf (NT a ts) = a"

fun preorder :: "ntree \<Rightarrow> addr list" where
  "preorder (NT a ts) = a # concat (map preorder ts)"


fun shape :: "'k rangeOrd \<Rightarrow> ('k, 'v) treeNode list \<Rightarrow> ntree \<Rightarrow> bool" where
  "shape ord h (NT a ts) =
     (map snd (ord a (children (h ! a))) = map rootOf ts \<and> list_all (shape ord h) ts)"

text \<open>
  Two abbreviations for the analysis of \<open>removeRecursively\<close>: the state in which the
  recursion continues once the calls for the nodes \<open>as\<close> have returned, and what these
  calls leave untouched in the store (every node outside \<open>as\<close>, and all keys).
\<close>

definition removalResult ::
  "'k rangeOrd \<Rightarrow> ('k, 'v) treeNode list \<Rightarrow> addr list \<Rightarrow> rframe list \<Rightarrow> ('k \<times> addr) list \<Rightarrow>
     addr list \<Rightarrow> int \<Rightarrow> ('k, 'v) treeNode list \<Rightarrow>
     (('k \<times> addr) list \<times> ('k, 'v) treeNode list \<times> addr list \<times> int) option"
  where
  "removalResult ord h as rest km l cnt h' =
     removeRecursively ord rest (fold (\<lambda>a. AList.delete (key (h ! a))) as km) h'
       (fold listRemove as l) (cnt + int (length as))"

definition frameOk :: "('k, 'v) treeNode list \<Rightarrow> addr list \<Rightarrow> ('k, 'v) treeNode list \<Rightarrow> bool" where
  "frameOk h as h' =
     ((\<forall>x. x \<notin> set as \<longrightarrow> h' ! x = h ! x) \<and> (\<forall>x. key (h' ! x) = key (h ! x)))"

text \<open>
  Order in the recency list: \<open>before l p x\<close> holds when \<open>p\<close> occurs in \<open>l\<close> and \<open>x\<close>
  occurs behind it (\<open>p\<close> is more recent than \<open>x\<close>).
\<close>

fun before :: "addr list \<Rightarrow> addr \<Rightarrow> addr \<Rightarrow> bool" where
  "before [] p x = False"
| "before (y # ys) p x = (if y = p then x \<in> set ys else before ys p x)"

text \<open>
  An invariant of the recency list. \<open>Bx h l E\<close>: every node of the recency list
  whose parent is in the list too stands behind its parent, except the nodes in \<open>E\<close>
  (nodes that were just moved to the front and whose parent is about to follow).
  \<open>Pn h n\<close> are the nodes whose parent is \<open>n\<close>. \<open>validHeap\<close>: parent pointers and
  children entries point to allocated nodes, and a children entry is filed under the
  key of its node. \<open>childLinks\<close>: a node of the recency list that is entered in a
  children map has the owner of that map as its parent. \<open>liveInList\<close>: a node
  registered in the key table is in the recency list and is registered under its own
  key. \<open>inv0\<close> puts these together; \<open>INV\<close> is \<open>inv0\<close> without exceptions, and
  \<open>READY c n\<close> is the state in which the promotion loop of \<open>Add\<close> and \<open>AddOrUpdate\<close>
  starts for the node \<open>n\<close>. \<open>noEntry h n\<close>: no children map holds \<open>n\<close>.
\<close>

definition Bx :: "('k, 'v) treeNode list \<Rightarrow> addr list \<Rightarrow> addr set \<Rightarrow> bool" where
  "Bx h l E = (\<forall>x\<in>set l. \<forall>p. parent (h ! x) = Some p \<longrightarrow> p \<in> set l \<longrightarrow> before l p x \<or> x \<in> E)"

definition Pn :: "('k, 'v) treeNode list \<Rightarrow> addr option \<Rightarrow> addr set" where
  "Pn h n = {x. n \<noteq> None \<and> parent (h ! x) = n}"

definition validHeap :: "('k, 'v) treeNode list \<Rightarrow> bool" where
  "validHeap h =
     (\<forall>a<length h.
        (\<forall>p. parent (h ! a) = Some p \<longrightarrow> p < length h)
        \<and> (\<forall>k ch. (k, ch) \<in> set (children (h ! a)) \<longrightarrow> ch < length h \<and> key (h ! ch) = k))"

definition childLinks :: "('k, 'v) treeNode list \<Rightarrow> addr list \<Rightarrow> bool" where
  "childLinks h l =
     (\<forall>a<length h. \<forall>k ch. (k, ch) \<in> set (children (h ! a)) \<longrightarrow> ch \<in> set l \<longrightarrow>
        parent (h ! ch) = Some a)"

definition liveInList :: "('k, 'v) treeNode list \<Rightarrow> addr list \<Rightarrow> ('k \<times> addr) list \<Rightarrow> bool" where
  "liveInList h l km = (\<forall>k a. (k, a) \<in> set km \<longrightarrow> a \<in> set l \<and> key (h ! a) = k)"

definition inv0 ::
  "('k, 'v) treeNode list \<Rightarrow> addr list \<Rightarrow> ('k \<times> addr) list \<Rightarrow> addr set \<Rightarrow> bool" where
  "inv0 h l km E =
     (distinct l \<and> (\<forall>a\<in>set l. a < length h) \<and> validHeap h \<and> liveInList h l km
      \<and> Bx h l E \<and> childLinks h l)"

definition INV :: "('k, 'v) Cache \<Rightarrow> bool" where
  "INV c = inv0 (heap c) (lruList c) (keysMap c) {}"

definition READY :: "('k, 'v) Cache \<Rightarrow> addr \<Rightarrow> bool" where
  "READY c n = inv0 (heap c) (lruList c) (keysMap c) (Pn (heap c) (parent (heap c ! n)))"

definition noEntry :: "('k, 'v) treeNode list \<Rightarrow> addr \<Rightarrow> bool" where
  "noEntry h n = (\<forall>a<length h. \<forall>k. (k, n) \<notin> set (children (h ! a)))"

text \<open>
  For the walk of \<open>TraverseSubtree\<close>: a frame of the stack is good when its node is
  allocated and is the start node, or is not in the recency list, or has its parent's
  deferred promotion further down the stack; \<open>pend\<close> are the nodes whose parent's
  promotion is still deferred.
\<close>

fun frameNode :: "frame \<Rightarrow> addr" where
  "frameNode (Call a d) = a"
| "frameNode (Deferred a) = a"

definition goodFrame ::
  "('k, 'v) treeNode list \<Rightarrow> addr \<Rightarrow> addr set \<Rightarrow> frame \<Rightarrow> frame list \<Rightarrow> bool" where
  "goodFrame h n0 L fr post =
     (frameNode fr < length h
      \<and> (frameNode fr = n0 \<or> frameNode fr \<notin> L
          \<or> (\<exists>a'. parent (h ! frameNode fr) = Some a' \<and> Deferred a' \<in> set post)))"

fun goodStack :: "('k, 'v) treeNode list \<Rightarrow> addr \<Rightarrow> addr set \<Rightarrow> frame list \<Rightarrow> bool" where
  "goodStack h n0 L [] = True"
| "goodStack h n0 L (fr # post) = (goodFrame h n0 L fr post \<and> goodStack h n0 L post)"

definition pend :: "('k, 'v) treeNode list \<Rightarrow> frame list \<Rightarrow> addr set" where
  "pend h st = {x. \<exists>a. Deferred a \<in> set st \<and> parent (h ! x) = Some a}"

text \<open>
  The cache on which \<open>evict\<close> is called. \<open>evictStateOf c n\<close> is the cache that
  \<open>promoteAndEvict c n\<close> passes to \<open>evict\<close>, when the capacity test succeeds;
  \<open>evictArg c x\<close> is that cache for the public call \<open>x\<close> on \<open>c\<close> (only \<open>Add\<close> and
  \<open>AddOrUpdate\<close> evict).
\<close>

definition evictStateOf :: "('k, 'v) Cache \<Rightarrow> addr \<Rightarrow> ('k, 'v) Cache option" where
  "evictStateOf c n =
     (case promoteAncestors c n of
        None \<Rightarrow> None
      | Some c1 \<Rightarrow>
          if maxEntries c1 > 0 \<and> int (length (lruList c1)) > maxEntries c1 then Some c1
          else None)"

fun evictArg :: "('k, 'v) Cache \<Rightarrow> ('k, 'v) operation \<Rightarrow> ('k, 'v) Cache option" where
  "evictArg c (OpAdd k v pk) =
     (case map_of (keysMap c) pk of
        None \<Rightarrow> None
      | Some p \<Rightarrow>
          if map_of (keysMap c) k \<noteq> None then None
          else evictStateOf (insertNode c k v p) (length (heap c)))"
| "evictArg c (OpAddOrUpdate k v pk) =
     (case map_of (keysMap c) pk of
        None \<Rightarrow> None
      | Some p \<Rightarrow>
          (case map_of (keysMap c) k of
             Some n \<Rightarrow>
               (if parent (heap c ! n) \<noteq> Some p then
                  (case cycleCheck (heap c) (Some p) n of
                     None \<Rightarrow> None
                   | Some True \<Rightarrow> None
                   | Some False \<Rightarrow> evictStateOf (relinkNode c k v n p) n)
                else evictStateOf (updateNode c v n) n)
           | None \<Rightarrow> evictStateOf (insertNode c k v p) (length (heap c))))"
| "evictArg c (OpAddRoot k v) = None"
| "evictArg c (OpGet k) = None"
| "evictArg c (OpPeek k) = None"
| "evictArg c (OpGetBranch k) = None"
| "evictArg c (OpPeekBranch k) = None"
| "evictArg c (OpTraverseToRoot k) = None"
| "evictArg c (OpTraverseSubtree k d ord) = None"
| "evictArg c (OpRemove k ord) = None"

section \<open>Concrete caches used below\<close>

text \<open>
  Keys and values are natural numbers; the root has key 1. Each of these caches is the
  result of a sequence of public calls on a new cache, as the theorems that use them
  state.
\<close>

definition afterRemoveLeaf :: "(nat, nat) Cache" where
  "afterRemoveLeaf =
     \<lparr>maxEntries = 10, onEvict = True,
      stats = [SetAmount 1, SetAmount 2, SetAmount 3, SetAmount 2],
      keysMap = [(1, 0), (2, 1)], lruList = [0, 1], root = Some 0,
      heap =
        [\<lparr>key = 1, val = 10, parent = None, children = [(2, 1)]\<rparr>,
         \<lparr>key = 2, val = 20, parent = Some 0, children = [(3, 2)]\<rparr>,
         \<lparr>key = 3, val = 30, parent = None, children = []\<rparr>]\<rparr>"

definition orphanCache :: "(nat, nat) Cache" where
  "orphanCache =
     \<lparr>maxEntries = 10, onEvict = True,
      stats = [SetAmount 1, SetAmount 2, SetAmount 3, SetAmount 2, SetAmount 3,
               SetAmount 4, SetAmount 2],
      keysMap = [(1, 0), (4, 4)], lruList = [0, 3, 4], root = Some 0,
      heap =
        [\<lparr>key = 1, val = 10, parent = None, children = [(2, 1), (3, 3)]\<rparr>,
         \<lparr>key = 2, val = 20, parent = None, children = []\<rparr>,
         \<lparr>key = 3, val = 30, parent = None, children = []\<rparr>,
         \<lparr>key = 3, val = 31, parent = Some 0, children = [(4, 4)]\<rparr>,
         \<lparr>key = 4, val = 40, parent = Some 3, children = []\<rparr>]\<rparr>"

definition staleChildCache :: "(nat, nat) Cache" where
  "staleChildCache =
     \<lparr>maxEntries = 3, onEvict = True,
      stats = [SetAmount 1, SetAmount 2, SetAmount 3, SetAmount 2, SetAmount 3],
      keysMap = [(1, 0), (2, 1), (4, 3)], lruList = [0, 3, 1], root = Some 0,
      heap =
        [\<lparr>key = 1, val = 10, parent = None, children = [(2, 1), (4, 3)]\<rparr>,
         \<lparr>key = 2, val = 20, parent = Some 0, children = [(3, 2)]\<rparr>,
         \<lparr>key = 3, val = 30, parent = None, children = []\<rparr>,
         \<lparr>key = 4, val = 40, parent = Some 0, children = []\<rparr>]\<rparr>"

text \<open>
  The cache on which \<open>Add(5, 50, 1)\<close>, called on \<open>staleChildCache\<close>, calls \<open>evict\<close>:
  node inserted, ancestors promoted.
\<close>

definition staleChildAtEvict :: "(nat, nat) Cache" where
  "staleChildAtEvict =
     \<lparr>maxEntries = 3, onEvict = True,
      stats = [SetAmount 1, SetAmount 2, SetAmount 3, SetAmount 2, SetAmount 3],
      keysMap = [(1, 0), (2, 1), (4, 3), (5, 4)], lruList = [0, 4, 3, 1], root = Some 0,
      heap =
        [\<lparr>key = 1, val = 10, parent = None, children = [(2, 1), (4, 3), (5, 4)]\<rparr>,
         \<lparr>key = 2, val = 20, parent = Some 0, children = [(3, 2)]\<rparr>,
         \<lparr>key = 3, val = 30, parent = None, children = []\<rparr>,
         \<lparr>key = 4, val = 40, parent = Some 0, children = []\<rparr>,
         \<lparr>key = 5, val = 50, parent = Some 0, children = []\<rparr>]\<rparr>"

definition fullCache :: "(nat, nat) Cache" where
  "fullCache =
     \<lparr>maxEntries = 2, onEvict = True, stats = [SetAmount 1, SetAmount 2],
      keysMap = [(1, 0), (2, 1)], lruList = [0, 1], root = Some 0,
      heap =
        [\<lparr>key = 1, val = 10, parent = None, children = [(2, 1)]\<rparr>,
         \<lparr>key = 2, val = 20, parent = Some 0, children = []\<rparr>]\<rparr>"

definition chainCache :: "(nat, nat) Cache" where
  "chainCache =
     \<lparr>maxEntries = 10, onEvict = True, stats = [SetAmount 1, SetAmount 2, SetAmount 3],
      keysMap = [(1, 0), (2, 1), (3, 2)], lruList = [0, 1, 2], root = Some 0,
      heap =
        [\<lparr>key = 1, val = 10, parent = None, children = [(2, 1)]\<rparr>,
         \<lparr>key = 2, val = 20, parent = Some 0, children = [(3, 2)]\<rparr>,
         \<lparr>key = 3, val = 30, parent = Some 1, children = []\<rparr>]\<rparr>"

text \<open>
  The cache of the repository's test \<open>TestCache_GetBranch\<close>: root 1, child 2 with
  grandchild 3, child 4 with grandchild 5.
\<close>

definition twoBranchCache :: "(nat, nat) Cache" where
  "twoBranchCache =
     \<lparr>maxEntries = 10, onEvict = True,
      stats = [SetAmount 1, SetAmount 2, SetAmount 3, SetAmount 4, SetAmount 5],
      keysMap = [(1, 0), (2, 1), (3, 2), (4, 3), (5, 4)], lruList = [0, 3, 4, 1, 2],
      root = Some 0,
      heap =
        [\<lparr>key = 1, val = 10, parent = None, children = [(2, 1), (4, 3)]\<rparr>,
         \<lparr>key = 2, val = 20, parent = Some 0, children = [(3, 2)]\<rparr>,
         \<lparr>key = 3, val = 30, parent = Some 1, children = []\<rparr>,
         \<lparr>key = 4, val = 40, parent = Some 0, children = [(5, 4)]\<rparr>,
         \<lparr>key = 5, val = 50, parent = Some 3, children = []\<rparr>]\<rparr>"

text \<open>A full cache of capacity 3 that consists of one chain: root 1, child 2, grandchild 3.\<close>

definition fullChainCache :: "(nat, nat) Cache" where
  "fullChainCache =
     \<lparr>maxEntries = 3, onEvict = True, stats = [SetAmount 1, SetAmount 2, SetAmount 3],
      keysMap = [(1, 0), (2, 1), (3, 2)], lruList = [0, 1, 2], root = Some 0,
      heap =
        [\<lparr>key = 1, val = 10, parent = None, children = [(2, 1)]\<rparr>,
         \<lparr>key = 2, val = 20, parent = Some 0, children = [(3, 2)]\<rparr>,
         \<lparr>key = 3, val = 30, parent = Some 1, children = []\<rparr>]\<rparr>"

text \<open>
  The cache on which \<open>Add(3, 30, 1)\<close>, called on \<open>fullCache\<close>, calls \<open>evict\<close>.
\<close>

definition fullCacheAtEvict :: "(nat, nat) Cache" where
  "fullCacheAtEvict =
     \<lparr>maxEntries = 2, onEvict = True, stats = [SetAmount 1, SetAmount 2],
      keysMap = [(1, 0), (2, 1), (3, 2)], lruList = [0, 2, 1], root = Some 0,
      heap =
        [\<lparr>key = 1, val = 10, parent = None, children = [(2, 1), (3, 2)]\<rparr>,
         \<lparr>key = 2, val = 20, parent = Some 0, children = []\<rparr>,
         \<lparr>key = 3, val = 30, parent = Some 0, children = []\<rparr>]\<rparr>"

text \<open>
  Capacity 3: root 1, child 2, grandchild 3 under 2; 3 is removed and added again under
  the root (node 3, value 31); 2 is removed; 3 is added once more under the root (node 4,
  value 32). The key table holds the keys 1 and 3, the recency list the nodes of key 1,
  of key 3 (value 32) and of key 3 (value 31).
\<close>

definition shadowedCache :: "(nat, nat) Cache" where
  "shadowedCache =
     \<lparr>maxEntries = 3, onEvict = True,
      stats = [SetAmount 1, SetAmount 2, SetAmount 3, SetAmount 2, SetAmount 3, SetAmount 1,
               SetAmount 2],
      keysMap = [(1, 0), (3, 4)], lruList = [0, 4, 3], root = Some 0,
      heap =
        [\<lparr>key = 1, val = 10, parent = None, children = [(2, 1), (3, 4)]\<rparr>,
         \<lparr>key = 2, val = 20, parent = None, children = []\<rparr>,
         \<lparr>key = 3, val = 30, parent = None, children = []\<rparr>,
         \<lparr>key = 3, val = 31, parent = Some 0, children = []\<rparr>,
         \<lparr>key = 3, val = 32, parent = Some 0, children = []\<rparr>]\<rparr>"

text \<open>
  The cache on which \<open>Add(7, 70, 3)\<close>, called on \<open>shadowedCache\<close>, calls \<open>evict\<close>.
\<close>

definition shadowedAtEvict :: "(nat, nat) Cache" where
  "shadowedAtEvict =
     \<lparr>maxEntries = 3, onEvict = True,
      stats = [SetAmount 1, SetAmount 2, SetAmount 3, SetAmount 2, SetAmount 3, SetAmount 1,
               SetAmount 2],
      keysMap = [(1, 0), (3, 4), (7, 5)], lruList = [0, 4, 5, 3], root = Some 0,
      heap =
        [\<lparr>key = 1, val = 10, parent = None, children = [(2, 1), (3, 4)]\<rparr>,
         \<lparr>key = 2, val = 20, parent = None, children = []\<rparr>,
         \<lparr>key = 3, val = 30, parent = None, children = []\<rparr>,
         \<lparr>key = 3, val = 31, parent = Some 0, children = []\<rparr>,
         \<lparr>key = 3, val = 32, parent = Some 0, children = [(7, 5)]\<rparr>,
         \<lparr>key = 7, val = 70, parent = Some 4, children = []\<rparr>]\<rparr>"

text \<open>
  Root 1 with the children 5 and 2; 3 is added under 5 and removed, then added under 2
  (value 31) with the child 4; 5 is removed; 3 is added under 2 again (value 32); 2 is
  removed. The key table holds the keys 1 and 4.
\<close>

definition cutOffCache :: "(nat, nat) Cache" where
  "cutOffCache =
     \<lparr>maxEntries = 10, onEvict = True,
      stats = [SetAmount 1, SetAmount 2, SetAmount 3, SetAmount 2, SetAmount 3, SetAmount 4,
               SetAmount 5, SetAmount 3, SetAmount 4, SetAmount 2],
      keysMap = [(1, 0), (4, 5)], lruList = [0, 4, 5], root = Some 0,
      heap =
        [\<lparr>key = 1, val = 10, parent = None, children = [(5, 1), (2, 3)]\<rparr>,
         \<lparr>key = 5, val = 50, parent = None, children = []\<rparr>,
         \<lparr>key = 3, val = 30, parent = None, children = []\<rparr>,
         \<lparr>key = 2, val = 20, parent = None, children = []\<rparr>,
         \<lparr>key = 3, val = 31, parent = Some 3, children = [(4, 5)]\<rparr>,
         \<lparr>key = 4, val = 40, parent = Some 4, children = []\<rparr>,
         \<lparr>key = 3, val = 32, parent = None, children = []\<rparr>]\<rparr>"

text \<open>The result of \<open>Remove(1)\<close> on \<open>cutOffCache\<close>.\<close>

definition cutOffRootRemoved :: "(nat, nat) Cache" where
  "cutOffRootRemoved =
     \<lparr>maxEntries = 10, onEvict = True,
      stats = [SetAmount 1, SetAmount 2, SetAmount 3, SetAmount 2, SetAmount 3, SetAmount 4,
               SetAmount 5, SetAmount 3, SetAmount 4, SetAmount 2, SetAmount 1],
      keysMap = [(4, 5)], lruList = [4, 5], root = Some 0,
      heap =
        [\<lparr>key = 1, val = 10, parent = None, children = []\<rparr>,
         \<lparr>key = 5, val = 50, parent = None, children = []\<rparr>,
         \<lparr>key = 3, val = 30, parent = None, children = []\<rparr>,
         \<lparr>key = 2, val = 20, parent = None, children = []\<rparr>,
         \<lparr>key = 3, val = 31, parent = Some 3, children = [(4, 5)]\<rparr>,
         \<lparr>key = 4, val = 40, parent = Some 4, children = []\<rparr>,
         \<lparr>key = 3, val = 32, parent = None, children = []\<rparr>]\<rparr>"

section \<open>Properties\<close>

subsection \<open>Admissible iteration orders\<close>

lemma rangeOrder_insertionOrder: "rangeOrder insertionOrder"
  by (simp add: rangeOrder_def insertionOrder_def)

lemma rangeOrder_reverseOrder: "rangeOrder reverseOrder"
  by (simp add: rangeOrder_def reverseOrder_def)

lemma rangeOrder_set: "rangeOrder ord \<Longrightarrow> set (ord n es) = set es"
  unfolding rangeOrder_def by (metis mset_eq_setD)

lemma rangeOrder_nil: "rangeOrder ord \<Longrightarrow> ord n [] = []"
  unfolding rangeOrder_def by (metis mset_zero_iff)

lemma rangeOrder_single: "rangeOrder ord \<Longrightarrow> ord n [x] = [x]"
  unfolding rangeOrder_def by (metis mset_single_iff_right)

lemma rangeOrder_pair:
  assumes "rangeOrder ord"
  shows "ord n [x, y] = [x, y] \<or> ord n [x, y] = [y, x]"
proof -
  have m: "mset (ord n [x, y]) = mset [x, y]" using assms by (simp add: rangeOrder_def)
  then have "length (ord n [x, y]) = length [x, y]" by (rule mset_eq_length)
  then obtain a b where ab: "ord n [x, y] = [a, b]"
    by (cases "ord n [x, y]"; cases "tl (ord n [x, y])") auto
  with m have "{#a, b#} = {#x, y#}" by simp
  then have "(a = x \<and> b = y) \<or> (a = y \<and> b = x)"
    by (auto simp: add_eq_conv_ex)
  with ab show ?thesis by auto
qed

text \<open>
  The equations by which the operations are evaluated on a concrete cache when the
  iteration order is left open.
\<close>

lemmas evalCache =
  NewCache_def AddRoot_def Add_def AddOrUpdate_def insertNode_def relinkNode_def updateNode_def
  promoteAndEvict_def promoteAncestors_def evictIfOver_def evict_def promote.simps
  cycleCheck.simps newTreeNode_def removeFromParent_def PushFront_def MoveToFront_def
  listRemove_def Remove_def removeRecursively.simps Peek_def Len_def cacheNodeOf_def
  parentKey_def PeekBranch_def peekBranchLoop.simps GetBranch_def getBranchLoop.simps
  evictStateOf_def

subsection \<open>Remove leaves the removed node in its parent's children map\<close>

text \<open>
  \<open>Remove\<close> calls \<open>node.removeFromParent()\<close> after \<open>removeRecursively(node)\<close> has set
  \<open>node.parent\<close> to nil, so that call returns at its first test and the former parent
  keeps the removed node in its children map. The statements of this subsection hold for
  every admissible iteration order of the removals involved.
\<close>

lemma Remove_keeps_child_entry:
  assumes "rangeOrder o1"
  shows "run (NewCache 10 True) [OpAddRoot 1 10, OpAdd 2 20 1, OpAdd 3 30 2, OpRemove 3 o1]
     = Some afterRemoveLeaf
   \<and> map_of (keysMap afterRemoveLeaf) (3::nat) = None
   \<and> children (heap afterRemoveLeaf ! 1) = [(3, 2)]"
  using rangeOrder_nil [OF assms] by (simp add: evalCache afterRemoveLeaf_def)

text \<open>
  C7 (cascading removal count). After the root 1, its child 2 and the grandchild 3 were
  added and 3 was removed, the cache holds the two entries 1 and 2, and 2 has no live
  descendant. \<open>Remove(2)\<close> then returns 2, not 1: it counts the removed node 3 again,
  found in the children map of 2. The key table goes from two entries to one. \<open>o1\<close> and
  \<open>o2\<close> are the iteration orders of the two removals.
\<close>

theorem Remove_counts_removed_node_again:
  assumes "rangeOrder o1" and "rangeOrder o2"
  shows "run (NewCache 10 True) [OpAddRoot 1 10, OpAdd 2 20 1, OpAdd 3 30 2, OpRemove 3 o1]
     = Some afterRemoveLeaf
   \<and> Len afterRemoveLeaf = 2
   \<and> snd (Peek afterRemoveLeaf 3) = None
   \<and> map_option snd (Remove o2 afterRemoveLeaf 2) = Some 2
   \<and> map_option (Len \<circ> fst) (Remove o2 afterRemoveLeaf 2) = Some 1"
  using rangeOrder_nil [OF assms(1)] rangeOrder_nil [OF assms(2)] rangeOrder_single [OF assms(2)]
  by (simp add: evalCache afterRemoveLeaf_def)

theorem Remove_counts_removed_node_again_witness:
  "rangeOrder (insertionOrder :: nat rangeOrd)
   \<and> run (NewCache 10 True)
       [OpAddRoot 1 10, OpAdd 2 20 1, OpAdd 3 30 2, OpRemove 3 insertionOrder]
       = Some afterRemoveLeaf
   \<and> Len afterRemoveLeaf = 2
   \<and> snd (Peek afterRemoveLeaf 3) = None
   \<and> map_option snd (Remove insertionOrder afterRemoveLeaf 2) = Some 2
   \<and> map_option (Len \<circ> fst) (Remove insertionOrder afterRemoveLeaf 2) = Some 1"
  using Remove_counts_removed_node_again [OF rangeOrder_insertionOrder rangeOrder_insertionOrder]
    rangeOrder_insertionOrder
  by simp

text \<open>
  C2 (ancestor presence). Root 1, child 2, grandchild 3 under 2; 3 is removed and added
  again under the root, 4 is added under the new 3; then 2 is removed. The removal
  reaches the old node 3 through the children map of 2 and deletes key 3 from the key
  table. Afterwards key 4 is present with parent key 3, and key 3 is absent. \<open>o1\<close> and
  \<open>o2\<close> are the iteration orders of the two removals.
\<close>

theorem present_key_with_absent_parent:
  assumes "rangeOrder o1" and "rangeOrder o2"
  shows "run (NewCache 10 True)
     [OpAddRoot 1 10, OpAdd 2 20 1, OpAdd 3 30 2, OpRemove 3 o1, OpAdd 3 31 1, OpAdd 4 40 3,
      OpRemove 2 o2] = Some orphanCache
   \<and> snd (Peek orphanCache 4) = Some \<lparr>Key = 4, Value = 40, ParentKey = 3\<rparr>
   \<and> snd (Peek orphanCache 3) = None
   \<and> snd (Peek orphanCache 1) = Some \<lparr>Key = 1, Value = 10, ParentKey = 0\<rparr>"
  using rangeOrder_nil [OF assms(1)] rangeOrder_nil [OF assms(2)] rangeOrder_single [OF assms(2)]
  by (simp add: evalCache orphanCache_def)

theorem present_key_with_absent_parent_witness:
  "rangeOrder (insertionOrder :: nat rangeOrd)
   \<and> run (NewCache 10 True)
       [OpAddRoot 1 10, OpAdd 2 20 1, OpAdd 3 30 2, OpRemove 3 insertionOrder, OpAdd 3 31 1,
        OpAdd 4 40 3, OpRemove 2 insertionOrder] = Some orphanCache
   \<and> snd (Peek orphanCache 4) = Some \<lparr>Key = 4, Value = 40, ParentKey = 3\<rparr>
   \<and> snd (Peek orphanCache 3) = None
   \<and> snd (Peek orphanCache 1) = Some \<lparr>Key = 1, Value = 10, ParentKey = 0\<rparr>"
  using present_key_with_absent_parent [OF rangeOrder_insertionOrder rangeOrder_insertionOrder]
    rangeOrder_insertionOrder
  by simp

text \<open>
  A consequence for the children maps. Capacity 3; root 1, child 2, grandchild 3 under 2;
  3 is removed and 4 is added under the root. \<open>Add(5, 50, 1)\<close> then exceeds the capacity
  and calls \<open>evict\<close> on \<open>staleChildAtEvict\<close>, whose recency list ends with the node of
  key 2. That node has no child left in the cache (key 3 is not in the key table, and
  the removed node has no parent pointer), but its children map still holds the removed
  node, and \<open>TraverseSubtree(2)\<close> still calls the callback for key 3. The eviction
  callback receives key 2.
\<close>

lemma evicted_node_with_child_entry:
  "run (NewCache 3 True)
     [OpAddRoot 1 10, OpAdd 2 20 1, OpAdd 3 30 2, OpRemove 3 insertionOrder, OpAdd 4 40 1]
     = Some staleChildCache
   \<and> evictArg staleChildCache (OpAdd 5 50 1) = Some staleChildAtEvict
   \<and> key (heap staleChildAtEvict ! last (lruList staleChildAtEvict)) = 2
   \<and> children (heap staleChildAtEvict ! last (lruList staleChildAtEvict)) = [(3, 2)]
   \<and> map_of (keysMap staleChildAtEvict) 3 = None
   \<and> parent (heap staleChildAtEvict ! 2) = None
   \<and> snd (evict staleChildAtEvict) = Some \<lparr>Key = 2, Value = 20, ParentKey = 1\<rparr>
   \<and> map_option snd (Add staleChildCache 5 50 1)
       = Some (None, [\<lparr>Key = 2, Value = 20, ParentKey = 1\<rparr>])
   \<and> map_option snd (TraverseSubtree insertionOrder staleChildCache 2 (- 1))
       = Some [\<lparr>Key = 2, Value = 20, ParentKey = 1\<rparr>, \<lparr>Key = 3, Value = 30, ParentKey = 0\<rparr>]"
  by code_simp

text \<open>
  C1 (leaf-only eviction). Capacity 3; root 1, child 2, grandchild 3 under 2. 3 is
  removed and added again under the root (value 31). \<open>Remove(2)\<close> then reaches the old
  node 3 through the children map of 2 and deletes key 3 from the key table, while the
  node with value 31 stays in the recency list. 3 is added under the root once more
  (value 32): \<open>shadowedCache\<close>. \<open>Add(7, 70, 3)\<close> puts 7 below the entry 3 and calls
  \<open>evict\<close> on \<open>shadowedAtEvict\<close>, because the recency list now holds four nodes. At that
  moment key 3 is present with value 32 and has the child 7. The tail of the recency
  list is the node with value 31, also of key 3. \<open>evict\<close> runs \<open>delete(c.keysMap, 3)\<close>
  and deletes key 3 from the children map of the root: the entry 3 is gone from the
  cache, its child 7 stays, and the callback receives key 3 with the value 31.
  \<open>AddOrUpdate(7, 70, 3)\<close> does the same.
\<close>

theorem evict_deletes_entry_with_child:
  assumes "rangeOrder o1" and "rangeOrder o2"
  shows "run (NewCache 3 True)
     [OpAddRoot 1 10, OpAdd 2 20 1, OpAdd 3 30 2, OpRemove 3 o1, OpAdd 3 31 1, OpRemove 2 o2,
      OpAdd 3 32 1] = Some shadowedCache
   \<and> evictArg shadowedCache (OpAdd 7 70 3) = Some shadowedAtEvict
   \<and> evictArg shadowedCache (OpAddOrUpdate 7 70 3) = Some shadowedAtEvict
   \<and> 0 < maxEntries shadowedAtEvict
   \<and> maxEntries shadowedAtEvict < int (length (lruList shadowedAtEvict))
   \<and> snd (Peek shadowedAtEvict 3) = Some \<lparr>Key = 3, Value = 32, ParentKey = 1\<rparr>
   \<and> snd (Peek shadowedAtEvict 7) = Some \<lparr>Key = 7, Value = 70, ParentKey = 3\<rparr>
   \<and> map_option (\<lambda>a. children (heap shadowedAtEvict ! a)) (map_of (keysMap shadowedAtEvict) 3)
       = Some [(7, 5)]
   \<and> map_of (keysMap shadowedAtEvict) 7 = Some 5
   \<and> map_option (\<lambda>a. key (heap shadowedAtEvict ! a)) (parent (heap shadowedAtEvict ! 5))
       = Some 3
   \<and> key (heap shadowedAtEvict ! last (lruList shadowedAtEvict)) = 3
   \<and> snd (evict shadowedAtEvict) = Some \<lparr>Key = 3, Value = 31, ParentKey = 1\<rparr>
   \<and> snd (Peek (fst (evict shadowedAtEvict)) 3) = None
   \<and> snd (Peek (fst (evict shadowedAtEvict)) 7) = Some \<lparr>Key = 7, Value = 70, ParentKey = 3\<rparr>
   \<and> map_option snd (Add shadowedCache 7 70 3)
       = Some (None, [\<lparr>Key = 3, Value = 31, ParentKey = 1\<rparr>])
   \<and> map_option (\<lambda>r. snd (Peek (fst r) 3)) (Add shadowedCache 7 70 3) = Some None
   \<and> map_option (\<lambda>r. snd (Peek (fst r) 7)) (Add shadowedCache 7 70 3)
       = Some (Some \<lparr>Key = 7, Value = 70, ParentKey = 3\<rparr>)
   \<and> map_option snd (AddOrUpdate shadowedCache 7 70 3)
       = Some (None, [\<lparr>Key = 3, Value = 31, ParentKey = 1\<rparr>])
   \<and> map_option (\<lambda>r. snd (Peek (fst r) 3)) (AddOrUpdate shadowedCache 7 70 3) = Some None"
proof -
  have 1: "run (NewCache 3 True)
     [OpAddRoot 1 10, OpAdd 2 20 1, OpAdd 3 30 2, OpRemove 3 o1, OpAdd 3 31 1, OpRemove 2 o2,
      OpAdd 3 32 1] = Some shadowedCache"
    using rangeOrder_nil [OF assms(1)] rangeOrder_nil [OF assms(2)]
      rangeOrder_single [OF assms(2)]
    by (simp add: evalCache shadowedCache_def)
  have 2: "evictArg shadowedCache (OpAdd 7 70 3) = Some shadowedAtEvict
   \<and> evictArg shadowedCache (OpAddOrUpdate 7 70 3) = Some shadowedAtEvict
   \<and> 0 < maxEntries shadowedAtEvict
   \<and> maxEntries shadowedAtEvict < int (length (lruList shadowedAtEvict))
   \<and> snd (Peek shadowedAtEvict 3) = Some \<lparr>Key = 3, Value = 32, ParentKey = 1\<rparr>
   \<and> snd (Peek shadowedAtEvict 7) = Some \<lparr>Key = 7, Value = 70, ParentKey = 3\<rparr>
   \<and> map_option (\<lambda>a. children (heap shadowedAtEvict ! a)) (map_of (keysMap shadowedAtEvict) 3)
       = Some [(7, 5)]
   \<and> map_of (keysMap shadowedAtEvict) 7 = Some 5
   \<and> map_option (\<lambda>a. key (heap shadowedAtEvict ! a)) (parent (heap shadowedAtEvict ! 5))
       = Some 3
   \<and> key (heap shadowedAtEvict ! last (lruList shadowedAtEvict)) = 3
   \<and> snd (evict shadowedAtEvict) = Some \<lparr>Key = 3, Value = 31, ParentKey = 1\<rparr>
   \<and> snd (Peek (fst (evict shadowedAtEvict)) 3) = None
   \<and> snd (Peek (fst (evict shadowedAtEvict)) 7) = Some \<lparr>Key = 7, Value = 70, ParentKey = 3\<rparr>
   \<and> map_option snd (Add shadowedCache 7 70 3)
       = Some (None, [\<lparr>Key = 3, Value = 31, ParentKey = 1\<rparr>])
   \<and> map_option (\<lambda>r. snd (Peek (fst r) 3)) (Add shadowedCache 7 70 3) = Some None
   \<and> map_option (\<lambda>r. snd (Peek (fst r) 7)) (Add shadowedCache 7 70 3)
       = Some (Some \<lparr>Key = 7, Value = 70, ParentKey = 3\<rparr>)
   \<and> map_option snd (AddOrUpdate shadowedCache 7 70 3)
       = Some (None, [\<lparr>Key = 3, Value = 31, ParentKey = 1\<rparr>])
   \<and> map_option (\<lambda>r. snd (Peek (fst r) 3)) (AddOrUpdate shadowedCache 7 70 3) = Some None"
    by code_simp
  from 1 2 show ?thesis by (rule conjI)
qed

theorem evict_deletes_entry_with_child_witness:
  "rangeOrder (insertionOrder :: nat rangeOrd)
   \<and> run (NewCache 3 True)
       [OpAddRoot 1 10, OpAdd 2 20 1, OpAdd 3 30 2, OpRemove 3 insertionOrder, OpAdd 3 31 1,
        OpRemove 2 insertionOrder, OpAdd 3 32 1] = Some shadowedCache
   \<and> evictArg shadowedCache (OpAdd 7 70 3) = Some shadowedAtEvict
   \<and> snd (Peek shadowedAtEvict 3) = Some \<lparr>Key = 3, Value = 32, ParentKey = 1\<rparr>
   \<and> snd (Peek shadowedAtEvict 7) = Some \<lparr>Key = 7, Value = 70, ParentKey = 3\<rparr>
   \<and> snd (evict shadowedAtEvict) = Some \<lparr>Key = 3, Value = 31, ParentKey = 1\<rparr>
   \<and> snd (Peek (fst (evict shadowedAtEvict)) 3) = None"
  using evict_deletes_entry_with_child [OF rangeOrder_insertionOrder rangeOrder_insertionOrder]
    rangeOrder_insertionOrder
  by simp

text \<open>
  C8 (branch round-trip). Root 1 with the children 5 and 2; 3 is added under 5 and
  removed; 3 is added under 2 (value 31) and 4 under 3. \<open>Remove(5)\<close> reaches the old node
  3 through the children map of 5 and deletes key 3 from the key table. 3 is added under
  2 again (value 32), which replaces the node with value 31 in the children map of 2,
  so \<open>Remove(2)\<close> does not reach that node and its child 4. In the resulting cache the
  keys 1 and 4 are present, the root is the entry 1, and \<open>GetBranch(4)\<close> and
  \<open>PeekBranch(4)\<close> return the three elements 2, 3, 4: they do not start at the root, and
  their first two elements are not present.
\<close>

theorem branch_not_from_root:
  assumes "rangeOrder o1" and "rangeOrder o2" and "rangeOrder o3"
  shows "run (NewCache 10 True)
     [OpAddRoot 1 10, OpAdd 5 50 1, OpAdd 3 30 5, OpRemove 3 o1, OpAdd 2 20 1, OpAdd 3 31 2,
      OpAdd 4 40 3, OpRemove 5 o2, OpAdd 3 32 2, OpRemove 2 o3] = Some cutOffCache
   \<and> map_option (\<lambda>r. key (heap cutOffCache ! r)) (root cutOffCache) = Some 1
   \<and> snd (Peek cutOffCache 1) = Some \<lparr>Key = 1, Value = 10, ParentKey = 0\<rparr>
   \<and> snd (Peek cutOffCache 4) = Some \<lparr>Key = 4, Value = 40, ParentKey = 3\<rparr>
   \<and> map_option snd (GetBranch cutOffCache 4)
       = Some [\<lparr>Key = 2, Value = 20, ParentKey = 0\<rparr>, \<lparr>Key = 3, Value = 31, ParentKey = 2\<rparr>,
               \<lparr>Key = 4, Value = 40, ParentKey = 3\<rparr>]
   \<and> map_option snd (PeekBranch cutOffCache 4)
       = Some [\<lparr>Key = 2, Value = 20, ParentKey = 0\<rparr>, \<lparr>Key = 3, Value = 31, ParentKey = 2\<rparr>,
               \<lparr>Key = 4, Value = 40, ParentKey = 3\<rparr>]
   \<and> snd (Peek cutOffCache 2) = None
   \<and> snd (Peek cutOffCache 3) = None"
  using rangeOrder_nil [OF assms(1)] rangeOrder_nil [OF assms(2)] rangeOrder_nil [OF assms(3)]
    rangeOrder_single [OF assms(2)] rangeOrder_single [OF assms(3)]
  by (simp add: evalCache cutOffCache_def)

theorem branch_not_from_root_witness:
  "rangeOrder (insertionOrder :: nat rangeOrd)
   \<and> run (NewCache 10 True)
       [OpAddRoot 1 10, OpAdd 5 50 1, OpAdd 3 30 5, OpRemove 3 insertionOrder, OpAdd 2 20 1,
        OpAdd 3 31 2, OpAdd 4 40 3, OpRemove 5 insertionOrder, OpAdd 3 32 2,
        OpRemove 2 insertionOrder] = Some cutOffCache
   \<and> map_option (\<lambda>r. key (heap cutOffCache ! r)) (root cutOffCache) = Some 1
   \<and> map_option snd (GetBranch cutOffCache 4)
       = Some [\<lparr>Key = 2, Value = 20, ParentKey = 0\<rparr>, \<lparr>Key = 3, Value = 31, ParentKey = 2\<rparr>,
               \<lparr>Key = 4, Value = 40, ParentKey = 3\<rparr>]"
  using branch_not_from_root
    [OF rangeOrder_insertionOrder rangeOrder_insertionOrder rangeOrder_insertionOrder]
    rangeOrder_insertionOrder
  by simp

text \<open>
  C9 (removal of the root). On the same cache, whose keys 1 and 4 are present and whose
  root is the entry 1, \<open>Remove(1)\<close> returns 3 and leaves one entry: key 4 is still
  present, because its node is reached from no children map below the root. The cache
  is not empty after the removal of the root key, and \<open>Add(9, 90, 4)\<close> and
  \<open>AddOrUpdate(9, 90, 4)\<close> succeed on it. \<open>AddRoot\<close> still fails.
\<close>

theorem Remove_root_keeps_entry:
  assumes "rangeOrder o1" and "rangeOrder o2" and "rangeOrder o3" and "rangeOrder o4"
  shows "run (NewCache 10 True)
     [OpAddRoot 1 10, OpAdd 5 50 1, OpAdd 3 30 5, OpRemove 3 o1, OpAdd 2 20 1, OpAdd 3 31 2,
      OpAdd 4 40 3, OpRemove 5 o2, OpAdd 3 32 2, OpRemove 2 o3] = Some cutOffCache
   \<and> map_option (\<lambda>r. key (heap cutOffCache ! r)) (root cutOffCache) = Some 1
   \<and> Remove o4 cutOffCache 1 = Some (cutOffRootRemoved, 3)
   \<and> Len cutOffRootRemoved = 1
   \<and> snd (Peek cutOffRootRemoved 1) = None
   \<and> snd (Peek cutOffRootRemoved 4) = Some \<lparr>Key = 4, Value = 40, ParentKey = 3\<rparr>
   \<and> snd (AddRoot cutOffRootRemoved 1 11) = Some ErrRootAlreadyExists
   \<and> map_option snd (Add cutOffRootRemoved 9 90 4) = Some (None, [])
   \<and> map_option (\<lambda>r. snd (Peek (fst r) 9)) (Add cutOffRootRemoved 9 90 4)
       = Some (Some \<lparr>Key = 9, Value = 90, ParentKey = 4\<rparr>)
   \<and> map_option (Len \<circ> fst) (Add cutOffRootRemoved 9 90 4) = Some 2
   \<and> map_option snd (AddOrUpdate cutOffRootRemoved 9 90 4) = Some (None, [])"
proof -
  have 1: "run (NewCache 10 True)
     [OpAddRoot 1 10, OpAdd 5 50 1, OpAdd 3 30 5, OpRemove 3 o1, OpAdd 2 20 1, OpAdd 3 31 2,
      OpAdd 4 40 3, OpRemove 5 o2, OpAdd 3 32 2, OpRemove 2 o3] = Some cutOffCache"
    using rangeOrder_nil [OF assms(1)] rangeOrder_nil [OF assms(2)] rangeOrder_nil [OF assms(3)]
      rangeOrder_single [OF assms(2)] rangeOrder_single [OF assms(3)]
    by (simp add: evalCache cutOffCache_def)
  have 2: "Remove o4 cutOffCache 1 = Some (cutOffRootRemoved, 3)"
    using rangeOrder_pair [OF assms(4), of 0 "(5, 1)" "(2, 3)"] rangeOrder_nil [OF assms(4)]
    by (auto simp: evalCache cutOffCache_def cutOffRootRemoved_def)
  have 3: "map_option (\<lambda>r. key (heap cutOffCache ! r)) (root cutOffCache) = Some 1
   \<and> Len cutOffRootRemoved = 1
   \<and> snd (Peek cutOffRootRemoved 1) = None
   \<and> snd (Peek cutOffRootRemoved 4) = Some \<lparr>Key = 4, Value = 40, ParentKey = 3\<rparr>
   \<and> snd (AddRoot cutOffRootRemoved 1 11) = Some ErrRootAlreadyExists
   \<and> map_option snd (Add cutOffRootRemoved 9 90 4) = Some (None, [])
   \<and> map_option (\<lambda>r. snd (Peek (fst r) 9)) (Add cutOffRootRemoved 9 90 4)
       = Some (Some \<lparr>Key = 9, Value = 90, ParentKey = 4\<rparr>)
   \<and> map_option (Len \<circ> fst) (Add cutOffRootRemoved 9 90 4) = Some 2
   \<and> map_option snd (AddOrUpdate cutOffRootRemoved 9 90 4) = Some (None, [])"
    by code_simp
  from 1 2 3 show ?thesis by simp
qed

theorem Remove_root_keeps_entry_witness:
  "rangeOrder (insertionOrder :: nat rangeOrd)
   \<and> run (NewCache 10 True)
       [OpAddRoot 1 10, OpAdd 5 50 1, OpAdd 3 30 5, OpRemove 3 insertionOrder, OpAdd 2 20 1,
        OpAdd 3 31 2, OpAdd 4 40 3, OpRemove 5 insertionOrder, OpAdd 3 32 2,
        OpRemove 2 insertionOrder] = Some cutOffCache
   \<and> Remove insertionOrder cutOffCache 1 = Some (cutOffRootRemoved, 3)
   \<and> Len cutOffRootRemoved = 1
   \<and> map_option snd (Add cutOffRootRemoved 9 90 4) = Some (None, [])"
  using Remove_root_keeps_entry
    [OF rangeOrder_insertionOrder rangeOrder_insertionOrder rangeOrder_insertionOrder
      rangeOrder_insertionOrder]
    rangeOrder_insertionOrder
  by simp

text \<open>
  C3 (eviction metric). Capacity 2, root 1 and child 2. \<open>Add(3, 30, 1)\<close> and
  \<open>AddOrUpdate(3, 30, 1)\<close> both evict key 2 and call the eviction callback; the only call
  they make on the stats collaborator is \<open>SetAmount(2)\<close>. \<open>AddEvictions\<close> is not called.
\<close>

theorem eviction_without_AddEvictions:
  "run (NewCache 2 True) [OpAddRoot 1 10, OpAdd 2 20 1] = Some fullCache
   \<and> map_option snd (Add fullCache 3 30 1)
       = Some (None, [\<lparr>Key = 2, Value = 20, ParentKey = 1\<rparr>])
   \<and> map_option (stats \<circ> fst) (Add fullCache 3 30 1)
       = Some (stats fullCache @ [SetAmount 2])
   \<and> map_option snd (AddOrUpdate fullCache 3 30 1)
       = Some (None, [\<lparr>Key = 2, Value = 20, ParentKey = 1\<rparr>])
   \<and> map_option (stats \<circ> fst) (AddOrUpdate fullCache 3 30 1)
       = Some (stats fullCache @ [SetAmount 2])"
  by code_simp


subsection \<open>The loops over the ancestor chain\<close>

lemma promote_path:
  "pathToRoot h n as \<Longrightarrow> promote h n l = Some (fold MoveToFront as l)"
proof (induction as arbitrary: n l)
  case Nil
  then show ?case by (cases n) (simp_all add: promote.simps)
next
  case (Cons b bs)
  then have n: "n = Some b" and rest: "pathToRoot h (parent (h ! b)) bs"
    by (cases n; simp)+
  show ?case
    unfolding n by (subst promote.simps) (simp add: Cons.IH [OF rest])
qed

lemma peekBranchLoop_path:
  "pathToRoot h n as \<Longrightarrow>
   peekBranchLoop h n acc = Some (rev (map (cacheNodeOf h) as) @ acc)"
proof (induction as arbitrary: n acc)
  case Nil
  then show ?case by (cases n) (simp_all add: peekBranchLoop.simps)
next
  case (Cons b bs)
  then have n: "n = Some b" and rest: "pathToRoot h (parent (h ! b)) bs"
    by (cases n; simp)+
  show ?case
    unfolding n by (subst peekBranchLoop.simps) (simp add: Cons.IH [OF rest])
qed

lemma getBranchLoop_path:
  "pathToRoot h n as \<Longrightarrow>
   getBranchLoop h n acc l = Some (rev (map (cacheNodeOf h) as) @ acc, fold MoveToFront as l)"
proof (induction as arbitrary: n acc l)
  case Nil
  then show ?case by (cases n) (simp_all add: getBranchLoop.simps)
next
  case (Cons b bs)
  then have n: "n = Some b" and rest: "pathToRoot h (parent (h ! b)) bs"
    by (cases n; simp)+
  show ?case
    unfolding n by (subst getBranchLoop.simps) (simp add: Cons.IH [OF rest])
qed

lemma visitToRoot_path:
  "pathToRoot h n as \<Longrightarrow>
   visitToRoot h n calls = Some (calls @ map (cacheNodeOf h) as)"
proof (induction as arbitrary: n calls)
  case Nil
  then show ?case by (cases n) (simp_all add: visitToRoot.simps)
next
  case (Cons b bs)
  then have n: "n = Some b" and rest: "pathToRoot h (parent (h ! b)) bs"
    by (cases n; simp)+
  show ?case
    unfolding n by (subst visitToRoot.simps) (simp add: Cons.IH [OF rest])
qed

lemma cycleCheck_path:
  "pathToRoot h n as \<Longrightarrow> cycleCheck h n x = Some (x \<in> set as)"
proof (induction as arbitrary: n)
  case Nil
  then show ?case by (cases n) (simp_all add: cycleCheck.simps)
next
  case (Cons b bs)
  then have n: "n = Some b" and rest: "pathToRoot h (parent (h ! b)) bs"
    by (cases n; simp)+
  show ?case
    unfolding n by (subst cycleCheck.simps) (auto simp add: Cons.IH [OF rest])
qed

lemma pathToRoot_unique:
  "pathToRoot h n as \<Longrightarrow> pathToRoot h n bs \<Longrightarrow> as = bs"
proof (induction as arbitrary: n bs)
  case Nil
  then show ?case by (cases n; cases bs) auto
next
  case (Cons a as)
  then show ?case by (cases n; cases bs) auto
qed

lemma pathToRoot_suffix:
  "pathToRoot h n (xs @ a # ys) \<Longrightarrow> pathToRoot h (Some a) (a # ys)"
proof (induction xs arbitrary: n)
  case Nil
  then show ?case by (cases n) auto
next
  case (Cons x xs)
  then show ?case by (cases n) auto
qed

lemma pathToRoot_distinct: "pathToRoot h n as \<Longrightarrow> distinct as"
proof (rule ccontr)
  assume p: "pathToRoot h n as" and nd: "\<not> distinct as"
  then obtain xs ys zs a where as: "as = xs @ [a] @ ys @ [a] @ zs"
    using not_distinct_decomp by blast
  have 1: "pathToRoot h (Some a) (a # ys @ a # zs)"
    using pathToRoot_suffix [of h n xs a "ys @ a # zs"] p as by simp
  have 2: "pathToRoot h (Some a) (a # zs)"
    using pathToRoot_suffix [of h n "xs @ a # ys" a zs] p as by simp
  from pathToRoot_unique [OF 1 2] show False by simp
qed

lemma pathToRoot_last_parent:
  "pathToRoot h n as \<Longrightarrow> as \<noteq> [] \<Longrightarrow> parent (h ! last as) = None"
proof (induction as arbitrary: n)
  case Nil
  then show ?case by simp
next
  case (Cons b bs)
  then have n: "n = Some b" and rest: "pathToRoot h (parent (h ! b)) bs"
    by (cases n; simp)+
  show ?case
  proof (cases bs)
    case Nil
    with rest show ?thesis by (cases "parent (h ! b)") auto
  next
    case (Cons c cs)
    with Cons.IH [OF rest] show ?thesis by simp
  qed
qed

lemma fold_MoveToFront:
  "distinct l \<Longrightarrow> distinct as \<Longrightarrow> set as \<subseteq> set l \<Longrightarrow>
   fold MoveToFront as l = rev as @ filter (\<lambda>x. x \<notin> set as) l"
proof (induction as arbitrary: l)
  case Nil
  then show ?case by simp
next
  case (Cons a as)
  let ?l = "a # remove1 a l"
  have d: "distinct ?l" using Cons.prems by simp
  have s: "set as \<subseteq> set ?l" using Cons.prems by auto
  have m: "MoveToFront a l = ?l" using Cons.prems by (simp add: MoveToFront_def)
  have f: "filter (\<lambda>x. x \<notin> set as) (remove1 a l) = filter (\<lambda>x. x \<notin> set (a # as)) l"
    using Cons.prems(1)
    by (auto simp add: distinct_remove1_removeAll removeAll_filter_not_eq intro: filter_cong)
  show ?case
    using Cons.IH [OF d _ s] Cons.prems(2) m f by simp
qed

lemma pathToRoot_step:
  "pathToRoot h n as \<Longrightarrow> Suc j < length as \<Longrightarrow> parent (h ! (as ! j)) = Some (as ! Suc j)"
proof (induction as arbitrary: n j)
  case Nil
  then show ?case by simp
next
  case (Cons b bs)
  then have n: "n = Some b" and rest: "pathToRoot h (parent (h ! b)) bs"
    by (cases n; simp)+
  show ?case
  proof (cases j)
    case 0
    with Cons.prems rest show ?thesis
      by (cases bs; cases "parent (h ! b)") auto
  next
    case (Suc i)
    with Cons.prems Cons.IH [OF rest, of i] show ?thesis by simp
  qed
qed

lemma branch_linked:
  assumes p: "pathToRoot h n as" and i: "Suc i < length as"
  shows "Key (rev (map (cacheNodeOf h) as) ! i) = ParentKey (rev (map (cacheNodeOf h) as) ! Suc i)"
proof -
  let ?j = "length as - Suc (Suc i)"
  have j: "Suc ?j < length as" "length as - Suc i = Suc ?j" using i by auto
  have "parent (h ! (as ! ?j)) = Some (as ! Suc ?j)"
    using pathToRoot_step [OF p j(1)] .
  then show ?thesis
    using i j by (simp add: rev_nth cacheNodeOf_def parentKey_def)
qed

text \<open>
  The branch functions on an intact chain. Let \<open>k\<close> be registered with node \<open>n\<close>, whose
  key is \<open>k\<close>, and let the parent chain of \<open>n\<close> be finite and end at the root node. Then
  \<open>GetBranch\<close> returns a non-empty sequence that starts with the root (an entry without
  parent), ends with \<open>k\<close>, and in which each element's key is the parent key of the next
  one; \<open>PeekBranch\<close> returns the same sequence and changes nothing but the hit counter,
  so the recency list stays as it was. (\<open>cutOffCache\<close> is a cache, reached by public
  calls, in which the chain of a present key does not end at the root.)
\<close>

lemma branch_round_trip:
  assumes k: "map_of (keysMap c) k = Some n"
    and kn: "key (heap c ! n) = k"
    and p: "pathToRoot (heap c) (Some n) as"
    and r: "root c = Some (last as)"
  shows "\<exists>c' b. GetBranch c k = Some (c', b) \<and> b \<noteq> []
           \<and> root c = Some (last as) \<and> hd b = cacheNodeOf (heap c) (last as)
           \<and> parent (heap c ! last as) = None
           \<and> Key (last b) = k
           \<and> (\<forall>i. Suc i < length b \<longrightarrow> Key (b ! i) = ParentKey (b ! Suc i))
           \<and> PeekBranch c k = Some (c\<lparr>stats := stats c @ [IncHits]\<rparr>, b)
           \<and> lruList (c\<lparr>stats := stats c @ [IncHits]\<rparr>) = lruList c"
proof -
  let ?b = "rev (map (cacheNodeOf (heap c)) as)"
  from p obtain bs where as: "as = n # bs" by (cases as) auto
  have ne: "as \<noteq> []" using as by simp
  have g: "GetBranch c k
      = Some (c\<lparr>lruList := fold MoveToFront as (lruList c), stats := stats c @ [IncHits]\<rparr>, ?b)"
    using k getBranchLoop_path [OF p, of "[]" "lruList c"] by (simp add: GetBranch_def)
  have pk: "PeekBranch c k = Some (c\<lparr>stats := stats c @ [IncHits]\<rparr>, ?b)"
    using k peekBranchLoop_path [OF p, of "[]"] by (simp add: PeekBranch_def)
  have hd: "hd ?b = cacheNodeOf (heap c) (last as)"
    using ne by (simp add: hd_rev last_map)
  have lst: "Key (last ?b) = k"
    using as kn by (simp add: cacheNodeOf_def)
  have lk: "\<forall>i. Suc i < length ?b \<longrightarrow> Key (?b ! i) = ParentKey (?b ! Suc i)"
    using branch_linked [OF p] by simp
  show ?thesis
    using g pk hd lst lk ne r pathToRoot_last_parent [OF p ne] by simp
qed

lemma branch_round_trip_example:
  "map_of (keysMap chainCache) 3 = Some 2 \<and> key (heap chainCache ! 2) = 3
   \<and> pathToRoot (heap chainCache) (Some 2) [2, 1, 0]
   \<and> root chainCache = Some (last [2, 1, 0])
   \<and> (\<exists>c' b. GetBranch chainCache 3 = Some (c', b) \<and> b \<noteq> []
           \<and> root chainCache = Some (last [2, 1, 0])
           \<and> hd b = cacheNodeOf (heap chainCache) (last [2, 1, 0])
           \<and> parent (heap chainCache ! last [2, 1, 0]) = None
           \<and> Key (last b) = 3
           \<and> (\<forall>i. Suc i < length b \<longrightarrow> Key (b ! i) = ParentKey (b ! Suc i))
           \<and> PeekBranch chainCache 3 = Some (chainCache\<lparr>stats := stats chainCache @ [IncHits]\<rparr>, b)
           \<and> lruList (chainCache\<lparr>stats := stats chainCache @ [IncHits]\<rparr>) = lruList chainCache)"
proof -
  have h1: "map_of (keysMap chainCache) 3 = Some 2" by code_simp
  have h2: "key (heap chainCache ! 2) = 3" by code_simp
  have h3: "pathToRoot (heap chainCache) (Some 2) [2, 1, 0]" by code_simp
  have h4: "root chainCache = Some (last [2, 1, 0])" by code_simp
  from branch_round_trip [OF h1 h2 h3 h4] h1 h2 h3 h4 show ?thesis by blast
qed

text \<open>
  C4 as stated fails: on the cache of \<open>TestCache_GetBranch\<close>, whose recency order is
  1, 4, 5, 2, 3, the call \<open>GetBranch(3)\<close> leaves the order 1, 2, 3, 4, 5 (as that test
  expects). The root is frontmost and the target 3 is the last of its chain; promotion
  in root-to-target order would give 3, 2, 1, 4, 5.
\<close>

theorem GetBranch_root_frontmost:
  "run (NewCache 10 True) [OpAddRoot 1 10, OpAdd 2 20 1, OpAdd 3 30 2, OpAdd 4 40 1, OpAdd 5 50 4]
     = Some twoBranchCache
   \<and> getLRUOrder twoBranchCache = [1, 4, 5, 2, 3]
   \<and> map_option (getLRUOrder \<circ> fst) (GetBranch twoBranchCache 3) = Some [1, 2, 3, 4, 5]
   \<and> map_option (getLRUOrder \<circ> fst) (GetBranch twoBranchCache 3) \<noteq> Some [3, 2, 1, 4, 5]"
  by code_simp

text \<open>
  C4, amended. For a present key \<open>k\<close> with node \<open>n\<close> and finite parent chain \<open>as\<close>
  (from \<open>n\<close> to the root), all of it in the duplicate-free recency list, \<open>GetBranch\<close>
  moves the chain to the front in the order \<open>n\<close>, parent, ..., root. Afterwards the list
  is the chain in root-to-\<open>n\<close> order followed by the other entries in their previous
  order: the root is frontmost and \<open>n\<close> is the least recent of its chain. The resulting
  cache is the one \<open>Get\<close> produces.
\<close>

theorem GetBranch_promotes_towards_root:
  assumes k: "map_of (keysMap c) k = Some n"
    and p: "pathToRoot (heap c) (Some n) as"
    and d: "distinct (lruList c)"
    and s: "set as \<subseteq> set (lruList c)"
  shows "\<exists>c' b. GetBranch c k = Some (c', b)
           \<and> lruList c' = fold MoveToFront as (lruList c)
           \<and> lruList c' = rev as @ filter (\<lambda>x. x \<notin> set as) (lruList c)
           \<and> hd as = n \<and> parent (heap c ! last as) = None
           \<and> map_option fst (Get c k) = Some c'"
proof -
  from p obtain bs where as: "as = n # bs" by (cases as) auto
  have g: "GetBranch c k
      = Some (c\<lparr>lruList := fold MoveToFront as (lruList c), stats := stats c @ [IncHits]\<rparr>,
              rev (map (cacheNodeOf (heap c)) as))"
    using k getBranchLoop_path [OF p, of "[]" "lruList c"] by (simp add: GetBranch_def)
  have ge: "map_option fst (Get c k)
      = Some (c\<lparr>lruList := fold MoveToFront as (lruList c), stats := stats c @ [IncHits]\<rparr>)"
    using k promote_path [OF p, of "lruList c"] by (simp add: Get_def)
  have f: "fold MoveToFront as (lruList c) = rev as @ filter (\<lambda>x. x \<notin> set as) (lruList c)"
    using fold_MoveToFront [OF d pathToRoot_distinct [OF p] s] .
  have l: "parent (heap c ! last as) = None"
    using pathToRoot_last_parent [OF p] as by simp
  show ?thesis using g ge f l as by simp
qed

theorem GetBranch_promotes_towards_root_witness:
  "map_of (keysMap twoBranchCache) 3 = Some 2
   \<and> pathToRoot (heap twoBranchCache) (Some 2) [2, 1, 0]
   \<and> distinct (lruList twoBranchCache)
   \<and> set [2, 1, 0] \<subseteq> set (lruList twoBranchCache)
   \<and> (\<exists>c' b. GetBranch twoBranchCache 3 = Some (c', b)
           \<and> lruList c' = fold MoveToFront [2, 1, 0] (lruList twoBranchCache)
           \<and> lruList c' = rev [2, 1, 0] @ filter (\<lambda>x. x \<notin> set [2, 1, 0]) (lruList twoBranchCache)
           \<and> hd [2, 1, 0] = (2::nat) \<and> parent (heap twoBranchCache ! last [2, 1, 0]) = None
           \<and> map_option fst (Get twoBranchCache 3) = Some c')"
proof -
  have h1: "map_of (keysMap twoBranchCache) 3 = Some 2" by code_simp
  have h2: "pathToRoot (heap twoBranchCache) (Some 2) [2, 1, 0]" by code_simp
  have h3: "distinct (lruList twoBranchCache)" by code_simp
  have h4: "set [2, 1, 0] \<subseteq> set (lruList twoBranchCache)" by code_simp
  from GetBranch_promotes_towards_root [OF h1 h2 h3 h4] h1 h2 h3 h4 show ?thesis by blast
qed


subsection \<open>Errors\<close>

lemma promoteAndEvict_no_error:
  "promoteAndEvict c n = Some (c', e, cb) \<Longrightarrow> e = None"
  by (auto simp: promoteAndEvict_def Let_def split: option.splits)

lemma AddRoot_error:
  "snd (AddRoot c k v) = Some e \<Longrightarrow> AddRoot c k v = (c, Some ErrRootAlreadyExists)"
  by (auto simp: AddRoot_def Let_def split: if_splits)

lemma Add_error:
  "Add c k v pk = Some (c', Some e, cb) \<Longrightarrow>
   c' = c \<and> cb = [] \<and> (e = ErrParentNotExist \<or> e = ErrAlreadyExists)"
  by (auto simp: Add_def split: option.splits if_splits dest: promoteAndEvict_no_error)

lemma AddOrUpdate_error:
  "AddOrUpdate c k v pk = Some (c', Some e, cb) \<Longrightarrow>
   c' = c \<and> cb = [] \<and> (e = ErrParentNotExist \<or> e = ErrCycleDetected)"
  by (auto simp: AddOrUpdate_def Let_def split: option.splits if_splits bool.splits
      dest: promoteAndEvict_no_error)

lemma pathToRoot_no_back_edge:
  assumes p: "pathToRoot h (Some p) as" and n: "n \<in> set as"
  shows "parent (h ! n) \<noteq> Some p"
proof
  assume e: "parent (h ! n) = Some p"
  from n obtain xs ys where as: "as = xs @ n # ys" by (auto simp: in_set_conv_decomp)
  have "pathToRoot h (Some n) (n # ys)"
    using pathToRoot_suffix [of h "Some p" xs n ys] p as by simp
  then have "pathToRoot h (Some p) ys" using e by simp
  then obtain zs where ys: "ys = p # zs" by (cases ys) auto
  from p obtain bs where "as = p # bs" by (cases as) auto
  with as ys have "\<not> distinct as" by (cases xs) auto
  with pathToRoot_distinct [OF p] show False by simp
qed

lemma AddOrUpdate_cycle:
  assumes k: "map_of (keysMap c) k = Some n"
    and pk: "map_of (keysMap c) pk = Some p"
    and p: "pathToRoot (heap c) (Some p) as"
    and n: "n \<in> set as"
  shows "AddOrUpdate c k v pk = Some (c, Some ErrCycleDetected, [])"
  using k pk cycleCheck_path [OF p, of n] n pathToRoot_no_back_edge [OF p n]
  by (simp add: AddOrUpdate_def)

text \<open>
  C6 (error atomicity). Whenever \<open>AddRoot\<close>, \<open>Add\<close> or \<open>AddOrUpdate\<close> returns an error,
  the cache it returns is the cache it was given (key table, links, values, recency
  list, and the record of stats calls) and the eviction callback is not called. The errors
  are \<open>ErrRootAlreadyExists\<close> for \<open>AddRoot\<close>, \<open>ErrParentNotExist\<close> or \<open>ErrAlreadyExists\<close>
  for \<open>Add\<close>, \<open>ErrParentNotExist\<close> or \<open>ErrCycleDetected\<close> for \<open>AddOrUpdate\<close>. In
  particular, when the node of \<open>k\<close> lies on the finite parent chain of the node of
  \<open>pk\<close> (the new parent is the node itself or one of its descendants), \<open>AddOrUpdate\<close>
  returns \<open>ErrCycleDetected\<close> and the unchanged cache.
\<close>

theorem error_atomicity:
  "(\<forall>e. snd (AddRoot c k v) = Some e \<longrightarrow> AddRoot c k v = (c, Some ErrRootAlreadyExists))
   \<and> (\<forall>c' e cb. Add c k v pk = Some (c', Some e, cb) \<longrightarrow>
         c' = c \<and> cb = [] \<and> (e = ErrParentNotExist \<or> e = ErrAlreadyExists))
   \<and> (\<forall>c' e cb. AddOrUpdate c k v pk = Some (c', Some e, cb) \<longrightarrow>
         c' = c \<and> cb = [] \<and> (e = ErrParentNotExist \<or> e = ErrCycleDetected))
   \<and> (\<forall>n p as. map_of (keysMap c) k = Some n \<and> map_of (keysMap c) pk = Some p
         \<and> pathToRoot (heap c) (Some p) as \<and> n \<in> set as \<longrightarrow>
         AddOrUpdate c k v pk = Some (c, Some ErrCycleDetected, []))"
  using AddRoot_error [of c k v] Add_error [of c k v pk] AddOrUpdate_error [of c k v pk]
    AddOrUpdate_cycle [of c k _ pk _ _ v]
  by blast

theorem error_atomicity_witness:
  "snd (AddRoot chainCache 1 11) = Some ErrRootAlreadyExists
   \<and> AddRoot chainCache 1 11 = (chainCache, Some ErrRootAlreadyExists)
   \<and> Add chainCache 1 11 3 = Some (chainCache, Some ErrAlreadyExists, [])
   \<and> AddOrUpdate chainCache 1 11 3 = Some (chainCache, Some ErrCycleDetected, [])
   \<and> map_of (keysMap chainCache) 1 = Some 0 \<and> map_of (keysMap chainCache) 3 = Some 2
   \<and> pathToRoot (heap chainCache) (Some 2) [2, 1, 0] \<and> (0::nat) \<in> set [2, 1, 0]"
proof -
  have h1: "snd (AddRoot chainCache 1 11) = Some ErrRootAlreadyExists" by code_simp
  have h2: "map_of (keysMap chainCache) 1 = Some 0" by code_simp
  have h3: "map_of (keysMap chainCache) 3 = Some 2" by code_simp
  have h4: "pathToRoot (heap chainCache) (Some 2) [2, 1, 0]" by code_simp
  have h5: "(0::nat) \<in> set [2, 1, 0]" by simp
  have h6: "Add chainCache 1 11 3 = Some (chainCache, Some ErrAlreadyExists, [])" by code_simp
  from error_atomicity [of chainCache 1 11 3] h1 h2 h3 h4 h5 h6 show ?thesis by blast
qed


subsection \<open>Insertion into a full chain\<close>

lemma pathToRoot_parent_cong:
  "(\<And>a. a \<in> set as \<Longrightarrow> parent (h' ! a) = parent (h ! a)) \<Longrightarrow>
   pathToRoot h' n as = pathToRoot h n as"
proof (induction as arbitrary: n)
  case Nil
  then show ?case by (cases n) auto
next
  case (Cons b bs)
  then show ?case by (cases n) auto
qed

lemma insertNode_fields:
  "heap (insertNode c k v p)
     = (heap c @ [newTreeNode k v (Some p)])
         [p := ((heap c @ [newTreeNode k v (Some p)]) ! p)
                 \<lparr>children := AList.update k (length (heap c))
                                (children ((heap c @ [newTreeNode k v (Some p)]) ! p))\<rparr>]"
  "lruList (insertNode c k v p) = length (heap c) # lruList c"
  "keysMap (insertNode c k v p) = AList.update k (length (heap c)) (keysMap c)"
  "maxEntries (insertNode c k v p) = maxEntries c"
  "onEvict (insertNode c k v p) = onEvict c"
  "stats (insertNode c k v p) = stats c"
  "root (insertNode c k v p) = root c"
  by (simp_all add: insertNode_def Let_def PushFront_def)

lemma insertNode_new_node:
  "p < length (heap c) \<Longrightarrow>
   heap (insertNode c k v p) ! length (heap c) = newTreeNode k v (Some p)"
  by (simp add: insertNode_fields)

lemma insertNode_old_parent:
  "a < length (heap c) \<Longrightarrow> parent (heap (insertNode c k v p) ! a) = parent (heap c ! a)"
  by (cases "a = p") (simp_all add: insertNode_fields nth_append)

lemma insertNode_old_key:
  "a < length (heap c) \<Longrightarrow> key (heap (insertNode c k v p) ! a) = key (heap c ! a)"
  by (cases "a = p") (simp_all add: insertNode_fields nth_append)

text \<open>
  C10 (a successful \<open>Add\<close> can evict the entry it inserts). Let the capacity be positive
  and reached, let the recency list hold exactly the nodes of the parent chain of the
  node of \<open>pk\<close> (the cache consists of the ancestors of the new entry), and let \<open>k\<close> be
  absent. Then \<open>Add(k, v, pk)\<close> returns without error; the eviction callback, when one
  is configured, is called once with the new key and value; \<open>Peek(k)\<close> fails afterwards;
  the recency list is the chain again and the key table is the one before the call.
\<close>

theorem Add_evicts_new_entry:
  assumes cap: "0 < maxEntries c" and full: "int (length (lruList c)) = maxEntries c"
    and pk: "map_of (keysMap c) pk = Some p"
    and k: "map_of (keysMap c) k = None"
    and p: "pathToRoot (heap c) (Some p) as"
    and l: "set (lruList c) = set as" and d: "distinct (lruList c)"
    and alloc: "\<forall>a\<in>set as. a < length (heap c)"
  shows "\<exists>c'. Add c k v pk
             = Some (c', None,
                     if onEvict c then [\<lparr>Key = k, Value = v, ParentKey = key (heap c ! p)\<rparr>]
                     else [])
           \<and> snd (Peek c' k) = None
           \<and> lruList c' = rev as \<and> keysMap c' = keysMap c"
proof -
  let ?n = "length (heap c)"
  let ?c1 = "insertNode c k v p"
  from p obtain bs where as: "as = p # bs" by (cases as) auto
  have pl: "p < ?n" using alloc as by simp
  have nn: "?n \<notin> set as" using alloc by auto
  have new: "heap ?c1 ! ?n = newTreeNode k v (Some p)" using pl by (rule insertNode_new_node)
  have p1: "pathToRoot (heap ?c1) (Some p) as"
    using pathToRoot_parent_cong [of as "heap ?c1" "heap c" "Some p"] alloc p
    by (simp add: insertNode_old_parent)
  have das: "distinct as" using pathToRoot_distinct [OF p] .
  have len: "length (lruList c) = length as"
    using d das l by (metis distinct_card)
  have fm: "fold MoveToFront as (?n # lruList c) = rev as @ [?n]"
  proof -
    have "fold MoveToFront as (?n # lruList c)
            = rev as @ filter (\<lambda>x. x \<notin> set as) (?n # lruList c)"
      using d l nn das by (intro fold_MoveToFront) auto
    moreover have "filter (\<lambda>x. x \<notin> set as) (lruList c) = []"
      using l by (simp add: filter_empty_conv)
    ultimately show ?thesis using nn by simp
  qed
  have pa: "promoteAncestors ?c1 ?n = Some (?c1\<lparr>lruList := rev as @ [?n]\<rparr>)"
    using promote_path [OF p1, of "?n # lruList c"] fm new
    by (simp add: promoteAncestors_def insertNode_fields(2) newTreeNode_def)
  let ?c2 = "?c1\<lparr>lruList := rev as @ [?n]\<rparr>"
  have over: "evictIfOver ?c2 = evict ?c2"
    using cap full len by (simp add: evictIfOver_def insertNode_fields)
  have pkey: "parentKey (heap ?c1) ?n = key (heap c ! p)"
    using new pl by (simp add: parentKey_def newTreeNode_def insertNode_old_key)
  have ev: "evict ?c2
      = (?c2\<lparr>lruList := rev as, keysMap := AList.delete k (keysMap ?c1),
              heap := removeFromParent ?n (heap ?c1)\<rparr>,
         Some \<lparr>Key = k, Value = v, ParentKey = key (heap c ! p)\<rparr>)"
    using new pkey by (simp add: evict_def Let_def newTreeNode_def)
  have km: "AList.delete k (keysMap ?c1) = keysMap c"
    using k by (simp add: insertNode_fields delete_update_same delete_id map_of_eq_None_iff)
  show ?thesis
    using pk k pa over ev km
    by (simp add: Add_def promoteAndEvict_def Let_def Peek_def insertNode_fields)
qed

theorem Add_evicts_new_entry_witness:
  "0 < maxEntries fullChainCache
   \<and> int (length (lruList fullChainCache)) = maxEntries fullChainCache
   \<and> map_of (keysMap fullChainCache) 3 = Some 2
   \<and> map_of (keysMap fullChainCache) 4 = None
   \<and> pathToRoot (heap fullChainCache) (Some 2) [2, 1, 0]
   \<and> set (lruList fullChainCache) = set [2, 1, 0]
   \<and> distinct (lruList fullChainCache)
   \<and> length (heap fullChainCache) = 3
   \<and> run (NewCache 3 True) [OpAddRoot 1 10, OpAdd 2 20 1, OpAdd 3 30 2] = Some fullChainCache
   \<and> map_option snd (Add fullChainCache 4 40 3)
       = Some (None, [\<lparr>Key = 4, Value = 40, ParentKey = 3\<rparr>])
   \<and> (\<exists>c'. Add fullChainCache 4 40 3
               = Some (c', None,
                       if onEvict fullChainCache
                       then [\<lparr>Key = 4, Value = 40, ParentKey = key (heap fullChainCache ! 2)\<rparr>]
                       else [])
             \<and> snd (Peek c' 4) = None
             \<and> lruList c' = rev [2, 1, 0] \<and> keysMap c' = keysMap fullChainCache)"
proof -
  have h1: "0 < maxEntries fullChainCache" by code_simp
  have h2: "int (length (lruList fullChainCache)) = maxEntries fullChainCache" by code_simp
  have h3: "map_of (keysMap fullChainCache) 3 = Some 2" by code_simp
  have h4: "map_of (keysMap fullChainCache) 4 = None" by code_simp
  have h5: "pathToRoot (heap fullChainCache) (Some 2) [2, 1, 0]" by code_simp
  have h6: "set (lruList fullChainCache) = set [2, 1, 0]" by code_simp
  have h7: "distinct (lruList fullChainCache)" by code_simp
  have h8: "\<forall>a\<in>set [2, 1, 0]. a < length (heap fullChainCache)" by code_simp
  have r: "run (NewCache 3 True) [OpAddRoot 1 10, OpAdd 2 20 1, OpAdd 3 30 2]
             = Some fullChainCache" by code_simp
  have e: "map_option snd (Add fullChainCache 4 40 3)
             = Some (None, [\<lparr>Key = 4, Value = 40, ParentKey = 3\<rparr>])" by code_simp
  have h9: "length (heap fullChainCache) = 3" by code_simp
  from Add_evicts_new_entry [OF h1 h2 h3 h4 h5 h6 h7 h8, of 40] h1 h2 h3 h4 h5 h6 h7 h9 r e
  show ?thesis by blast
qed


subsection \<open>Subtree traversal\<close>










text \<open>
  The iteration order decides the order of siblings. On the cache of
  \<open>TestCache_GetBranch\<close>, \<open>TraverseSubtree(1)\<close> visits 1, 2, 3, 4, 5 and leaves the recency
  order 1, 4, 5, 2, 3 when the loop over the children of the root yields 2 before 4, and
  visits 1, 4, 5, 2, 3 and leaves the recency order 1, 2, 3, 4, 5 when it yields 4 before
  2. In both, every entry is more recent than the entries below it.
\<close>

lemma TraverseSubtree_sibling_orders:
  "map_option (map Key \<circ> snd) (TraverseSubtree insertionOrder twoBranchCache 1 (- 1))
     = Some [1, 2, 3, 4, 5]
   \<and> map_option (getLRUOrder \<circ> fst) (TraverseSubtree insertionOrder twoBranchCache 1 (- 1))
       = Some [1, 4, 5, 2, 3]
   \<and> map_option (map Key \<circ> snd) (TraverseSubtree reverseOrder twoBranchCache 1 (- 1))
       = Some [1, 4, 5, 2, 3]
   \<and> map_option (getLRUOrder \<circ> fst) (TraverseSubtree reverseOrder twoBranchCache 1 (- 1))
       = Some [1, 2, 3, 4, 5]"
  by code_simp

subsection \<open>Removal of a whole tree\<close>

lemma shape_children_cong:
  "(\<And>x. x \<in> set (preorder t) \<Longrightarrow> children (h' ! x) = children (h ! x)) \<Longrightarrow>
   shape ord h' t = shape ord h t"
proof (induction t)
  case (NT a ts)
  have "list_all (shape ord h') ts = list_all (shape ord h) ts"
  proof (rule list.pred_cong [OF refl])
    fix t assume t: "t \<in> set ts"
    show "shape ord h' t = shape ord h t"
      using NT.IH [OF t] NT.prems t by auto
  qed
  then show ?case using NT.prems [of a] by simp
qed

lemma key_parent_update: "key ((h[a := (h ! a)\<lparr>parent := p\<rparr>]) ! x) = key (h ! x)"
  by (cases "a < length h"; cases "x = a") (simp_all add: list_update_beyond)

lemma children_parent_update: "children ((h[a := (h ! a)\<lparr>parent := p\<rparr>]) ! x) = children (h ! x)"
  by (cases "a < length h"; cases "x = a") (simp_all add: list_update_beyond)

lemma key_children_update: "key ((h[a := (h ! a)\<lparr>children := cs\<rparr>]) ! x) = key (h ! x)"
  by (cases "a < length h"; cases "x = a") (simp_all add: list_update_beyond)

lemma frameOk_key: "frameOk h as h' \<Longrightarrow> key (h' ! x) = key (h ! x)"
  by (simp add: frameOk_def)

lemma remove_forest:
  fixes h :: "('k, 'v) treeNode list"
  assumes el: "\<And>t (h :: ('k, 'v) treeNode list) rest (km :: ('k \<times> addr) list) l cnt.
               t \<in> set ts \<Longrightarrow> shape ord h t \<Longrightarrow> distinct (preorder t) \<Longrightarrow>
               \<exists>h'. removeRecursively ord (RCall (rootOf t) # rest) km h l cnt
                       = removalResult ord h (preorder t) rest km l cnt h'
                     \<and> frameOk h (preorder t) h'"
    and sh: "list_all (shape ord h) ts"
    and d: "distinct (concat (map preorder ts))"
  shows "\<exists>h'. removeRecursively ord (map (\<lambda>t. RCall (rootOf t)) ts @ rest) km h l cnt
                 = removalResult ord h (concat (map preorder ts)) rest km l cnt h'
               \<and> frameOk h (concat (map preorder ts)) h'"
  using el sh d
proof (induction ts arbitrary: h km l cnt)
  case Nil
  show ?case by (intro exI [of _ h]) (simp add: removalResult_def frameOk_def)
next
  case (Cons t ts)
  have sht: "shape ord h t" and shts: "list_all (shape ord h) ts" using Cons.prems(2) by simp_all
  have dt: "distinct (preorder t)" and dts: "distinct (concat (map preorder ts))"
    and disj: "set (preorder t) \<inter> set (concat (map preorder ts)) = {}"
    using Cons.prems(3) by simp_all
  from Cons.prems(1) [of t h "map (\<lambda>t. RCall (rootOf t)) ts @ rest" km l cnt, OF _ sht dt]
  obtain h1 where
    1: "removeRecursively ord (RCall (rootOf t) # map (\<lambda>t. RCall (rootOf t)) ts @ rest) km h l cnt
          = removalResult ord h (preorder t) (map (\<lambda>t. RCall (rootOf t)) ts @ rest) km l cnt h1"
    and f1: "frameOk h (preorder t) h1" by auto
  have sh1: "list_all (shape ord h1) ts"
    unfolding list_all_iff
  proof
    fix t' assume t': "t' \<in> set ts"
    have "shape ord h1 t' = shape ord h t'"
    proof (rule shape_children_cong)
      fix x assume "x \<in> set (preorder t')"
      with t' disj have "x \<notin> set (preorder t)" by auto
      with f1 show "children (h1 ! x) = children (h ! x)" by (simp add: frameOk_def)
    qed
    with shts t' show "shape ord h1 t'" by (simp add: list_all_iff)
  qed
  from Cons.IH [of h1 "fold (\<lambda>a. AList.delete (key (h ! a))) (preorder t) km"
      "fold listRemove (preorder t) l" "cnt + int (length (preorder t))", OF _ sh1 dts]
    Cons.prems(1)
  obtain h2 where
    2: "removeRecursively ord (map (\<lambda>t. RCall (rootOf t)) ts @ rest)
          (fold (\<lambda>a. AList.delete (key (h ! a))) (preorder t) km) h1
          (fold listRemove (preorder t) l) (cnt + int (length (preorder t)))
        = removalResult ord h1 (concat (map preorder ts)) rest
            (fold (\<lambda>a. AList.delete (key (h ! a))) (preorder t) km)
            (fold listRemove (preorder t) l) (cnt + int (length (preorder t))) h2"
    and f2: "frameOk h1 (concat (map preorder ts)) h2" by auto
  have f: "frameOk h (concat (map preorder (t # ts))) h2"
    using f1 f2 by (auto simp: frameOk_def)
  have "removeRecursively ord (map (\<lambda>t. RCall (rootOf t)) (t # ts) @ rest) km h l cnt
          = removalResult ord h (concat (map preorder (t # ts))) rest km l cnt h2"
    using 1 2 by (simp add: removalResult_def add.assoc frameOk_key [OF f1])
  with f show ?case by blast
qed

lemma remove_tree:
  "shape ord h t \<Longrightarrow> distinct (preorder t) \<Longrightarrow>
   \<exists>h'. removeRecursively ord (RCall (rootOf t) # rest) km h l cnt
           = removalResult ord h (preorder t) rest km l cnt h'
         \<and> frameOk h (preorder t) h'"
proof (induction t arbitrary: h rest km l cnt)
  case (NT a ts)
  let ?h1 = "h[a := (h ! a)\<lparr>parent := None\<rparr>]"
  have ch: "map (\<lambda>kc. RCall (snd kc)) (ord a (children (h ! a)))
              = map (\<lambda>t. RCall (rootOf t)) ts"
  proof -
    have "map (\<lambda>kc. RCall (snd kc)) (ord a (children (h ! a)))
            = map RCall (map snd (ord a (children (h ! a))))"
      by (simp add: comp_def)
    also have "\<dots> = map RCall (map rootOf ts)" using NT.prems(1) by simp
    finally show ?thesis by (simp add: comp_def)
  qed
  have f0: "frameOk h [a] ?h1"
    by (auto simp: frameOk_def key_parent_update)
  have sh1: "list_all (shape ord ?h1) ts"
    unfolding list_all_iff
  proof
    fix t' assume t': "t' \<in> set ts"
    have "shape ord ?h1 t' = shape ord h t'"
      by (rule shape_children_cong) (simp add: children_parent_update)
    with NT.prems(1) t' show "shape ord ?h1 t'" by (simp add: list_all_iff)
  qed
  have dts: "distinct (concat (map preorder ts))" and an: "a \<notin> set (concat (map preorder ts))"
    using NT.prems(2) by simp_all
  have s1: "removeRecursively ord (RCall a # rest) km h l cnt
          = removeRecursively ord (map (\<lambda>t. RCall (rootOf t)) ts @ RClear a # rest)
              (AList.delete (key (h ! a)) km) ?h1 (listRemove a l) (cnt + 1)"
    using ch by (subst removeRecursively.simps) simp
  from remove_forest [where ts = ts and h = ?h1 and rest = "RClear a # rest"
      and km = "AList.delete (key (h ! a)) km" and l = "listRemove a l" and cnt = "cnt + 1"
      and ord = ord, OF _ sh1 dts] NT.IH
  obtain h2 where
    2: "removeRecursively ord (map (\<lambda>t. RCall (rootOf t)) ts @ RClear a # rest)
          (AList.delete (key (h ! a)) km) ?h1 (listRemove a l) (cnt + 1)
        = removalResult ord ?h1 (concat (map preorder ts)) (RClear a # rest)
            (AList.delete (key (h ! a)) km) (listRemove a l) (cnt + 1) h2"
    and f2: "frameOk ?h1 (concat (map preorder ts)) h2" by blast
  let ?h3 = "h2[a := (h2 ! a)\<lparr>children := []\<rparr>]"
  have s3: "removalResult ord ?h1 (concat (map preorder ts)) (RClear a # rest)
            (AList.delete (key (h ! a)) km) (listRemove a l) (cnt + 1) h2
          = removalResult ord h (preorder (NT a ts)) rest km l cnt ?h3"
    unfolding removalResult_def
    by (subst removeRecursively.simps) (simp add: frameOk_key [OF f0] add.assoc)
  have f3: "frameOk h (preorder (NT a ts)) ?h3"
    using f0 f2 by (auto simp: frameOk_def key_children_update)
  show ?case using s1 2 s3 f3 by auto
qed

lemma delete_filter: "AList.delete k km = filter (\<lambda>p. fst p \<noteq> k) km"
  by (induction km) auto

lemma fold_delete_filter:
  "fold (\<lambda>a. AList.delete (f a)) as km = filter (\<lambda>p. fst p \<notin> f ` set as) km"
proof (induction as arbitrary: km)
  case Nil
  show ?case by simp
next
  case (Cons a as)
  have "fold (\<lambda>a. AList.delete (f a)) (a # as) km
          = filter (\<lambda>p. fst p \<notin> f ` set as) (AList.delete (f a) km)"
    using Cons.IH [of "AList.delete (f a) km"] by simp
  also have "\<dots> = filter (\<lambda>p. fst p \<notin> f ` set as) (filter (\<lambda>p. fst p \<noteq> f a) km)"
    by (simp only: delete_filter)
  also have "\<dots> = filter (\<lambda>p. fst p \<notin> f ` set (a # as)) km"
    by (auto intro: filter_cong)
  finally show ?case .
qed

lemma fold_delete_all:
  "set (map fst km) \<subseteq> set (map f as) \<Longrightarrow> fold (\<lambda>a. AList.delete (f a)) as km = []"
  by (auto simp: fold_delete_filter filter_empty_conv)

lemma removeRecursively_nil: "removeRecursively ord [] km h l cnt = Some (km, h, l, cnt)"
  by (subst removeRecursively.simps) simp

lemma Remove_whole_tree:
  assumes k: "map_of (keysMap c) k = Some n"
    and sh: "shape ord (heap c) t" and r: "rootOf t = n" and d: "distinct (preorder t)"
    and all: "set (map fst (keysMap c)) \<subseteq> set (map (\<lambda>a. key (heap c ! a)) (preorder t))"
  shows "\<exists>c'. Remove ord c k = Some (c', int (length (preorder t))) \<and> keysMap c' = []
           \<and> root c' = root c"
proof -
  from remove_tree [OF sh d, of "[]" "keysMap c" "lruList c" 0] r
  obtain h' where
    "removeRecursively ord [RCall n] (keysMap c) (heap c) (lruList c) 0
       = removalResult ord (heap c) (preorder t) [] (keysMap c) (lruList c) 0 h'" by auto
  then have "removeRecursively ord [RCall n] (keysMap c) (heap c) (lruList c) 0
       = Some ([], h', fold listRemove (preorder t) (lruList c), int (length (preorder t)))"
    using fold_delete_all [OF all]
    by (simp add: removalResult_def removeRecursively_nil)
  then show ?thesis using k by (simp add: Remove_def)
qed

lemma root_evict: "root (fst (evict c)) = root c"
  by (simp add: evict_def Let_def)

lemma root_promoteAndEvict:
  "promoteAndEvict c n = Some (c', e, cb) \<Longrightarrow> root c' = root c"
  by (auto simp: promoteAndEvict_def promoteAncestors_def evictIfOver_def Let_def root_evict
      split: option.splits if_splits)

lemma root_insertNode: "root (insertNode c k v p) = root c"
  by (simp add: insertNode_def Let_def)

lemma root_Add: "Add c k v pk = Some (c', e, cb) \<Longrightarrow> root c' = root c"
  by (auto simp: Add_def root_insertNode split: option.splits if_splits
      dest!: root_promoteAndEvict)

lemma root_AddOrUpdate: "AddOrUpdate c k v pk = Some (c', e, cb) \<Longrightarrow> root c' = root c"
  by (auto simp: AddOrUpdate_def Let_def root_insertNode relinkNode_def updateNode_def
      split: option.splits if_splits bool.splits dest!: root_promoteAndEvict)

lemma root_apply_op:
  "root c = Some r \<Longrightarrow> apply_op c x = Some c' \<Longrightarrow> root c' = Some r"
proof (cases x)
  case (OpAddRoot k v)
  then show "root c = Some r \<Longrightarrow> apply_op c x = Some c' \<Longrightarrow> root c' = Some r"
    by (auto simp: AddRoot_def)
next
  case (OpAdd k v pk)
  then show "root c = Some r \<Longrightarrow> apply_op c x = Some c' \<Longrightarrow> root c' = Some r"
    by (auto dest: root_Add)
next
  case (OpAddOrUpdate k v pk)
  then show "root c = Some r \<Longrightarrow> apply_op c x = Some c' \<Longrightarrow> root c' = Some r"
    by (auto dest: root_AddOrUpdate)
next
  case (OpGet k)
  then show "root c = Some r \<Longrightarrow> apply_op c x = Some c' \<Longrightarrow> root c' = Some r"
    by (auto simp: Get_def split: option.splits)
next
  case (OpPeek k)
  then show "root c = Some r \<Longrightarrow> apply_op c x = Some c' \<Longrightarrow> root c' = Some r"
    by (auto simp: Peek_def split: option.splits)
next
  case (OpGetBranch k)
  then show "root c = Some r \<Longrightarrow> apply_op c x = Some c' \<Longrightarrow> root c' = Some r"
    by (auto simp: GetBranch_def split: option.splits)
next
  case (OpPeekBranch k)
  then show "root c = Some r \<Longrightarrow> apply_op c x = Some c' \<Longrightarrow> root c' = Some r"
    by (auto simp: PeekBranch_def split: option.splits)
next
  case (OpTraverseToRoot k)
  then show "root c = Some r \<Longrightarrow> apply_op c x = Some c' \<Longrightarrow> root c' = Some r"
    by (auto simp: TraverseToRoot_def split: option.splits)
next
  case (OpTraverseSubtree k d ord)
  then show "root c = Some r \<Longrightarrow> apply_op c x = Some c' \<Longrightarrow> root c' = Some r"
    by (auto simp: TraverseSubtree_def split: option.splits)
next
  case (OpRemove k ord)
  then show "root c = Some r \<Longrightarrow> apply_op c x = Some c' \<Longrightarrow> root c' = Some r"
    by (auto simp: Remove_def split: option.splits)
qed

lemma root_run: "root c = Some r \<Longrightarrow> run c ops = Some c' \<Longrightarrow> root c' = Some r"
proof (induction ops arbitrary: c)
  case Nil
  then show ?case by simp
next
  case (Cons x xs)
  then show ?case by (auto split: option.splits dest: root_apply_op)
qed

lemma AddRoot_again: "root c = Some r \<Longrightarrow> AddRoot c k v = (c, Some ErrRootAlreadyExists)"
  by (simp add: AddRoot_def)

lemma empty_apply_op:
  "keysMap c = [] \<Longrightarrow> root c = Some r \<Longrightarrow>
   \<exists>c'. apply_op c x = Some c' \<and> keysMap c' = [] \<and> root c' = Some r"
  by (cases x)
     (simp_all add: AddRoot_def Add_def AddOrUpdate_def Get_def Peek_def GetBranch_def
        PeekBranch_def TraverseToRoot_def TraverseSubtree_def Remove_def)

lemma empty_run:
  "keysMap c = [] \<Longrightarrow> root c = Some r \<Longrightarrow>
   \<exists>c'. run c ops = Some c' \<and> keysMap c' = [] \<and> root c' = Some r"
proof (induction ops arbitrary: c)
  case Nil
  then show ?case by simp
next
  case (Cons x xs)
  from empty_apply_op [OF Cons.prems, of x]
  obtain c1 where 1: "apply_op c x = Some c1" "keysMap c1 = []" "root c1 = Some r" by auto
  from Cons.IH [OF 1(2,3)] 1(1) show ?case by simp
qed

lemma empty_Add:
  "keysMap c = [] \<Longrightarrow>
   Add c k v pk = Some (c, Some ErrParentNotExist, [])
   \<and> AddOrUpdate c k v pk = Some (c, Some ErrParentNotExist, [])"
  by (simp add: Add_def AddOrUpdate_def)

text \<open>
  What \<open>Remove\<close> does in general: for an absent key it returns 0 and the unchanged
  cache. For a present key it removes, and counts, every node of the tree that hangs
  from the key's node through the children maps. That tree contains the entries left
  behind by earlier removals, as in \<open>afterRemoveLeaf\<close>, where the node of key 2 still
  has the removed node of key 3 below it.
\<close>

lemma Remove_absent: "map_of (keysMap c) k = None \<Longrightarrow> Remove ord c k = Some (c, 0)"
  by (simp add: Remove_def)

lemma Remove_children_map_tree:
  assumes k: "map_of (keysMap c) k = Some n"
    and sh: "shape ord (heap c) t" and r: "rootOf t = n" and d: "distinct (preorder t)"
  shows "\<exists>c'. Remove ord c k = Some (c', int (length (preorder t)))
           \<and> keysMap c' = fold (\<lambda>a. AList.delete (key (heap c ! a))) (preorder t) (keysMap c)
           \<and> lruList c' = fold listRemove (preorder t) (lruList c)"
proof -
  from remove_tree [OF sh d, of "[]" "keysMap c" "lruList c" 0] r
  obtain h' where
    "removeRecursively ord [RCall n] (keysMap c) (heap c) (lruList c) 0
       = removalResult ord (heap c) (preorder t) [] (keysMap c) (lruList c) 0 h'" by auto
  then show ?thesis using k
    by (simp add: removalResult_def removeRecursively_nil Remove_def)
qed

lemma stale_child_is_counted:
  "map_of (keysMap afterRemoveLeaf) 2 = Some 1
   \<and> shape insertionOrder (heap afterRemoveLeaf) (NT 1 [NT 2 []])
   \<and> map_of (keysMap afterRemoveLeaf) (key (heap afterRemoveLeaf ! 2)) = None"
  by code_simp

subsection \<open>Calls on the stats collaborator made by insertions\<close>

text \<open>
  Whatever the cache and the arguments, \<open>Add\<close> and \<open>AddOrUpdate\<close> make no call on the
  stats collaborator (error returns) or the single call \<open>SetAmount\<close>.
\<close>

lemma stats_evict: "stats (fst (evict c)) = stats c"
  by (simp add: evict_def Let_def)

lemma stats_promoteAndEvict:
  "promoteAndEvict c n = Some (c', e, cb) \<Longrightarrow> \<exists>m. stats c' = stats c @ [SetAmount m]"
  by (auto simp: promoteAndEvict_def promoteAncestors_def evictIfOver_def Let_def stats_evict
      split: option.splits if_splits)

lemma Add_stats_calls:
  "Add c k v pk = Some (c', e, cb) \<Longrightarrow>
   stats c' = stats c \<or> (\<exists>m. stats c' = stats c @ [SetAmount m])"
  by (auto simp: Add_def insertNode_fields split: option.splits if_splits
      dest!: stats_promoteAndEvict)

lemma AddOrUpdate_stats_calls:
  "AddOrUpdate c k v pk = Some (c', e, cb) \<Longrightarrow>
   stats c' = stats c \<or> (\<exists>m. stats c' = stats c @ [SetAmount m])"
  by (auto simp: AddOrUpdate_def Let_def insertNode_fields relinkNode_def updateNode_def
      split: option.splits if_splits bool.splits dest!: stats_promoteAndEvict)

subsection \<open>The root pointer\<close>

text \<open>
  The root pointer is never cleared. Once the cache has a root node \<open>r\<close>, every later
  cache, after any sequence of public calls, has the same root pointer, and \<open>AddRoot\<close>
  fails there with \<open>ErrRootAlreadyExists\<close>. If moreover the root key \<open>k\<close> is registered
  with \<open>r\<close> and every key of the key table belongs to a node of the tree \<open>t\<close> that hangs
  from \<open>r\<close> through the children maps, then \<open>Remove(k)\<close> returns, leaves zero entries and
  keeps the root pointer; from then on every sequence of public calls returns with zero
  entries, every \<open>AddRoot\<close> fails with \<open>ErrRootAlreadyExists\<close>, and every \<open>Add\<close> and
  \<open>AddOrUpdate\<close> fails with \<open>ErrParentNotExist\<close>. (\<open>cutOffCache\<close> is a cache, reached by
  public calls, in which a registered key does not belong to that tree.)
\<close>

lemma root_pointer_never_cleared:
  assumes r: "root c = Some r"
  shows "(\<forall>ops c1. run c ops = Some c1 \<longrightarrow>
            root c1 = Some r \<and> (\<forall>k v. AddRoot c1 k v = (c1, Some ErrRootAlreadyExists)))
   \<and> (\<forall>k t. map_of (keysMap c) k = Some r \<and> shape ord (heap c) t \<and> rootOf t = r
          \<and> distinct (preorder t)
          \<and> set (map fst (keysMap c)) \<subseteq> set (map (\<lambda>a. key (heap c ! a)) (preorder t)) \<longrightarrow>
        (\<exists>c' cnt. Remove ord c k = Some (c', cnt) \<and> Len c' = 0 \<and> root c' = Some r
           \<and> (\<forall>ops. \<exists>c2. run c' ops = Some c2 \<and> Len c2 = 0
                 \<and> (\<forall>k' v'. AddRoot c2 k' v' = (c2, Some ErrRootAlreadyExists))
                 \<and> (\<forall>k' v' pk'. Add c2 k' v' pk' = Some (c2, Some ErrParentNotExist, [])
                       \<and> AddOrUpdate c2 k' v' pk' = Some (c2, Some ErrParentNotExist, [])))))"
proof -
  {
  fix ops c1 assume "run c ops = Some c1"
  then have r1: "root c1 = Some r" by (rule root_run [OF r])
  have "root c1 = Some r \<and> (\<forall>k v. AddRoot c1 k v = (c1, Some ErrRootAlreadyExists))"
    using r1 AddRoot_again [OF r1] by simp
  }
  then have A: "\<forall>ops c1. run c ops = Some c1 \<longrightarrow>
            root c1 = Some r \<and> (\<forall>k v. AddRoot c1 k v = (c1, Some ErrRootAlreadyExists))"
    by (intro allI impI)
  {
  fix k t
  assume a: "map_of (keysMap c) k = Some r \<and> shape ord (heap c) t \<and> rootOf t = r
          \<and> distinct (preorder t)
          \<and> set (map fst (keysMap c)) \<subseteq> set (map (\<lambda>a. key (heap c ! a)) (preorder t))"
  then have "\<exists>c'. Remove ord c k = Some (c', int (length (preorder t))) \<and> keysMap c' = []
           \<and> root c' = root c"
    by (intro Remove_whole_tree [where c = c and k = k and n = r and t = t]) simp_all
  then obtain c' where rm: "Remove ord c k = Some (c', int (length (preorder t)))"
    and e: "keysMap c' = []" and r': "root c' = Some r"
    using r by auto
  have "\<exists>c2. run c' ops = Some c2 \<and> Len c2 = 0
                 \<and> (\<forall>k' v'. AddRoot c2 k' v' = (c2, Some ErrRootAlreadyExists))
                 \<and> (\<forall>k' v' pk'. Add c2 k' v' pk' = Some (c2, Some ErrParentNotExist, [])
                       \<and> AddOrUpdate c2 k' v' pk' = Some (c2, Some ErrParentNotExist, []))"
    for ops
  proof -
    from empty_run [OF e r', of ops]
    obtain c2 where 2: "run c' ops = Some c2" "keysMap c2 = []" "root c2 = Some r" by auto
    show ?thesis
      using 2 AddRoot_again [OF 2(3)] empty_Add [OF 2(2)]
      by (intro exI [of _ c2]) (simp add: Len_def)
  qed
  then have dead: "\<forall>ops. \<exists>c2. run c' ops = Some c2 \<and> Len c2 = 0
                 \<and> (\<forall>k' v'. AddRoot c2 k' v' = (c2, Some ErrRootAlreadyExists))
                 \<and> (\<forall>k' v' pk'. Add c2 k' v' pk' = Some (c2, Some ErrParentNotExist, [])
                       \<and> AddOrUpdate c2 k' v' pk' = Some (c2, Some ErrParentNotExist, []))"
    by (rule allI)
  have len: "Len c' = 0" using e by (simp add: Len_def)
  have "\<exists>c' cnt. Remove ord c k = Some (c', cnt) \<and> Len c' = 0 \<and> root c' = Some r
           \<and> (\<forall>ops. \<exists>c2. run c' ops = Some c2 \<and> Len c2 = 0
                 \<and> (\<forall>k' v'. AddRoot c2 k' v' = (c2, Some ErrRootAlreadyExists))
                 \<and> (\<forall>k' v' pk'. Add c2 k' v' pk' = Some (c2, Some ErrParentNotExist, [])
                       \<and> AddOrUpdate c2 k' v' pk' = Some (c2, Some ErrParentNotExist, [])))"
    by (intro exI [of _ c'] exI [of _ "int (length (preorder t))"] conjI rm len r' dead)
  }
  then have B: "\<forall>k t. map_of (keysMap c) k = Some r \<and> shape ord (heap c) t \<and> rootOf t = r
          \<and> distinct (preorder t)
          \<and> set (map fst (keysMap c)) \<subseteq> set (map (\<lambda>a. key (heap c ! a)) (preorder t)) \<longrightarrow>
        (\<exists>c' cnt. Remove ord c k = Some (c', cnt) \<and> Len c' = 0 \<and> root c' = Some r
           \<and> (\<forall>ops. \<exists>c2. run c' ops = Some c2 \<and> Len c2 = 0
                 \<and> (\<forall>k' v'. AddRoot c2 k' v' = (c2, Some ErrRootAlreadyExists))
                 \<and> (\<forall>k' v' pk'. Add c2 k' v' pk' = Some (c2, Some ErrParentNotExist, [])
                       \<and> AddOrUpdate c2 k' v' pk' = Some (c2, Some ErrParentNotExist, []))))"
    by (intro allI impI)
  from A B show ?thesis by (rule conjI)
qed

lemma root_pointer_never_cleared_example:
  "root chainCache = Some 0
   \<and> run (NewCache 10 True) [OpAddRoot 1 10, OpAdd 2 20 1, OpAdd 3 30 2] = Some chainCache
   \<and> map_of (keysMap chainCache) 1 = Some 0
   \<and> shape insertionOrder (heap chainCache) (NT 0 [NT 1 [NT 2 []]])
   \<and> map_option snd (Remove insertionOrder chainCache 1) = Some 3
   \<and> (\<exists>c1. run chainCache [OpRemove 1 insertionOrder, OpAddRoot 7 70] = Some c1 \<and> root c1 = Some 0
         \<and> (\<forall>k v. AddRoot c1 k v = (c1, Some ErrRootAlreadyExists)))
   \<and> (\<exists>c' cnt. Remove insertionOrder chainCache 1 = Some (c', cnt) \<and> Len c' = 0 \<and> root c' = Some 0
         \<and> (\<forall>ops. \<exists>c2. run c' ops = Some c2 \<and> Len c2 = 0
               \<and> (\<forall>k' v'. AddRoot c2 k' v' = (c2, Some ErrRootAlreadyExists))
               \<and> (\<forall>k' v' pk'. Add c2 k' v' pk' = Some (c2, Some ErrParentNotExist, [])
                     \<and> AddOrUpdate c2 k' v' pk' = Some (c2, Some ErrParentNotExist, []))))"
proof -
  have h0: "root chainCache = Some 0" by code_simp
  have h1: "map_of (keysMap chainCache) 1 = Some 0" by code_simp
  have h2: "shape insertionOrder (heap chainCache) (NT 0 [NT 1 [NT 2 []]])" by code_simp
  have h3: "rootOf (NT 0 [NT 1 [NT 2 []]]) = 0" by simp
  have h4: "distinct (preorder (NT 0 [NT 1 [NT 2 []]]))" by simp
  have h5: "set (map fst (keysMap chainCache))
              \<subseteq> set (map (\<lambda>a. key (heap chainCache ! a)) (preorder (NT 0 [NT 1 [NT 2 []]])))"
    by code_simp
  have h6: "run (NewCache 10 True) [OpAddRoot 1 10, OpAdd 2 20 1, OpAdd 3 30 2]
              = Some chainCache" by code_simp
  have h7: "map_option snd (Remove insertionOrder chainCache 1) = Some 3" by code_simp
  obtain c1 where h8: "run chainCache [OpRemove 1 insertionOrder, OpAddRoot 7 70] = Some c1"
    by (cases "run chainCache [OpRemove 1 insertionOrder, OpAddRoot (7::nat) (70::nat)]") (simp_all, code_simp)
  note t = root_pointer_never_cleared [OF h0]
  have a: "root c1 = Some 0 \<and> (\<forall>k v. AddRoot c1 k v = (c1, Some ErrRootAlreadyExists))"
    using conjunct1 [OF t, rule_format, OF h8] .
  have prem: "map_of (keysMap chainCache) 1 = Some 0
      \<and> shape insertionOrder (heap chainCache) (NT 0 [NT 1 [NT 2 []]])
      \<and> rootOf (NT 0 [NT 1 [NT 2 []]]) = 0
      \<and> distinct (preorder (NT 0 [NT 1 [NT 2 []]]))
      \<and> set (map fst (keysMap chainCache))
            \<subseteq> set (map (\<lambda>a. key (heap chainCache ! a)) (preorder (NT 0 [NT 1 [NT 2 []]])))"
    by (intro conjI) (rule h1 h2 h3 h4 h5)+
  have b: "\<exists>c' cnt. Remove insertionOrder chainCache 1 = Some (c', cnt) \<and> Len c' = 0 \<and> root c' = Some 0
         \<and> (\<forall>ops. \<exists>c2. run c' ops = Some c2 \<and> Len c2 = 0
               \<and> (\<forall>k' v'. AddRoot c2 k' v' = (c2, Some ErrRootAlreadyExists))
               \<and> (\<forall>k' v' pk'. Add c2 k' v' pk' = Some (c2, Some ErrParentNotExist, [])
                     \<and> AddOrUpdate c2 k' v' pk' = Some (c2, Some ErrParentNotExist, [])))"
    using conjunct2 [OF t, rule_format, OF prem] .
  from h8 a have a': "\<exists>c1. run chainCache [OpRemove 1 insertionOrder, OpAddRoot 7 70] = Some c1 \<and> root c1 = Some 0
         \<and> (\<forall>k v. AddRoot c1 k v = (c1, Some ErrRootAlreadyExists))"
    by (intro exI [of _ c1]) simp
  show ?thesis by (intro conjI) (rule h0 h6 h1 h2 h7 a' b)+
qed


subsection \<open>Parents stand ahead of their children in the recency list\<close>

text \<open>
  Every public operation keeps \<open>INV\<close>: in the recency list each node stands behind
  its parent. The loops are partial functions; the lemmas about them are proved by
  fixed-point induction and say what holds whenever the loop returns.
\<close>

lemma before_in_set: "before l p x \<Longrightarrow> p \<in> set l \<and> x \<in> set l"
  by (induction l) (auto split: if_splits)

lemma before_remove1:
  "distinct l \<Longrightarrow> before l p x \<Longrightarrow> a \<noteq> p \<Longrightarrow> a \<noteq> x \<Longrightarrow> before (remove1 a l) p x"
  by (induction l) (auto split: if_splits)

lemma before_not_last:
  "distinct l \<Longrightarrow> before l p x \<Longrightarrow> p \<noteq> last l"
  by (induction l) (auto split: if_splits dest: before_in_set)

lemma before_append_fresh:
  "before l p x \<Longrightarrow> before (l @ [a]) p x"
  by (induction l) (auto split: if_splits)

lemma butlast_remove1_last:
  "distinct l \<Longrightarrow> l \<noteq> [] \<Longrightarrow> butlast l = remove1 (last l) l"
  by (induction l) (auto split: if_splits)

lemma Bx_mono: "Bx h l E \<Longrightarrow> E \<subseteq> E' \<Longrightarrow> Bx h l E'"
  by (auto simp: Bx_def)

lemma set_MoveToFront [simp]: "set (MoveToFront a l) = set l"
proof (cases "a \<in> set l")
  case True
  have "insert a (set (remove1 a l)) = set l"
  proof (intro equalityI subsetI)
    fix x assume "x \<in> insert a (set (remove1 a l))"
    then show "x \<in> set l" using True set_remove1_subset [of a l] by auto
  next
    fix x assume "x \<in> set l"
    then show "x \<in> insert a (set (remove1 a l))"
      by (cases "x = a") (simp_all add: in_set_remove1)
  qed
  then show ?thesis using True by (simp add: MoveToFront_def)
next
  case False
  then show ?thesis by (simp add: MoveToFront_def)
qed

lemma distinct_MoveToFront [simp]: "distinct l \<Longrightarrow> distinct (MoveToFront a l)"
  by (auto simp: MoveToFront_def)

lemma before_MoveToFront_other:
  "distinct l \<Longrightarrow> before l p x \<Longrightarrow> a \<noteq> p \<Longrightarrow> a \<noteq> x \<Longrightarrow> before (MoveToFront a l) p x"
  by (auto simp: MoveToFront_def before_remove1)

lemma before_MoveToFront_head:
  "distinct l \<Longrightarrow> a \<in> set l \<Longrightarrow> x \<in> set l \<Longrightarrow> x \<noteq> a \<Longrightarrow> before (MoveToFront a l) a x"
  by (auto simp: MoveToFront_def)

lemma Bx_MoveToFront:
  assumes d: "distinct l" and b: "Bx h l E"
  shows "Bx h (MoveToFront a l) (insert a (E - {x. parent (h ! x) = Some a}))"
  unfolding Bx_def
proof (intro ballI allI impI)
  fix x p
  assume x: "x \<in> set (MoveToFront a l)" and px: "parent (h ! x) = Some p"
    and p: "p \<in> set (MoveToFront a l)"
  show "before (MoveToFront a l) p x \<or> x \<in> insert a (E - {x. parent (h ! x) = Some a})"
  proof (cases "x = a")
    case True
    then show ?thesis by simp
  next
    case xa: False
    show ?thesis
    proof (cases "p = a")
      case True
      then show ?thesis using before_MoveToFront_head [OF d, of a x] x p xa by simp
    next
      case pa: False
      from b x px p have "before l p x \<or> x \<in> E" by (auto simp: Bx_def)
      then show ?thesis
        using before_MoveToFront_other [OF d, of p x a] pa xa px by auto
    qed
  qed
qed

lemma Bx_promote_step:
  assumes d: "distinct l" and b: "Bx h l (Pn h (Some a))"
  shows "Bx h (MoveToFront a l) (Pn h (parent (h ! a)))"
proof -
  have 1: "Bx h (MoveToFront a l) (insert a (Pn h (Some a) - {x. parent (h ! x) = Some a}))"
    using Bx_MoveToFront [OF d b] .
  have 2: "Bx h (MoveToFront a l) {a}"
    by (rule Bx_mono [OF 1]) (auto simp: Pn_def)
  show ?thesis
  proof (cases "parent (h ! a)")
    case None
    with 2 show ?thesis by (fastforce simp: Bx_def Pn_def)
  next
    case (Some p)
    show ?thesis by (rule Bx_mono [OF 2]) (simp add: Pn_def Some)
  qed
qed

lemma promote_Bx:
  assumes "promote h n l = Some l'"
  shows "distinct l \<Longrightarrow> Bx h l (Pn h n) \<Longrightarrow>
   distinct l' \<and> set l' = set l \<and> Bx h l' {}"
  using assms
proof (induction h n l l' rule: promote.raw_induct [rotated 1, consumes 1])
  case (1 promote h n l l')
  show ?case
  proof (cases n)
    case None
    with 1 show ?thesis by (auto simp: Pn_def)
  next
    case (Some a)
    with 1(2) have r: "promote h (parent (h ! a)) (MoveToFront a l) = Some l'" by simp
    have b: "Bx h (MoveToFront a l) (Pn h (parent (h ! a)))"
      using Bx_promote_step [OF 1(3)] 1(4) Some by simp
    from 1(1) [OF r distinct_MoveToFront [OF 1(3)] b] show ?thesis by simp
  qed
qed

lemma getBranchLoop_promote:
  assumes "getBranchLoop h n acc l = Some r"
  shows "promote h n l = Some (snd r)"
  using assms
proof (induction h n acc l r rule: getBranchLoop.raw_induct [rotated 1, consumes 1])
  case (1 getBranchLoop h n acc l r)
  show ?case
  proof (cases n)
    case None
    with 1(2) show ?thesis by (subst promote.simps) auto
  next
    case (Some a)
    with 1(2) have "getBranchLoop h (parent (h ! a)) (cacheNodeOf h a # acc) (MoveToFront a l) = Some r"
      by simp
    from 1(1) [OF this] show ?thesis unfolding Some by (subst promote.simps) simp
  qed
qed

lemma inv0_mono: "inv0 h l km E \<Longrightarrow> E \<subseteq> E' \<Longrightarrow> inv0 h l km E'"
  by (auto simp: inv0_def intro: Bx_mono)

lemma inv0_promote:
  assumes i: "inv0 h l km (Pn h n)" and p: "promote h n l = Some l'"
  shows "inv0 h l' km {}"
proof -
  from i have d: "distinct l" and b: "Bx h l (Pn h n)" by (simp_all add: inv0_def)
  from promote_Bx [OF p d b] i show ?thesis
    by (simp add: inv0_def liveInList_def childLinks_def)
qed

lemma inv0_tail_leaf:
  assumes i: "inv0 h l km {}" and ne: "l \<noteq> []" and live: "(k, a) \<in> set km"
  shows "parent (h ! a) \<noteq> Some (last l)"
proof
  assume pa: "parent (h ! a) = Some (last l)"
  from i live have a: "a \<in> set l" by (auto simp: inv0_def liveInList_def)
  from ne have t: "last l \<in> set l" by simp
  from i a pa t have "before l (last l) a" by (auto simp: inv0_def Bx_def)
  with before_not_last [of l "last l" a] i show False by (simp add: inv0_def)
qed

lemma set_delete_subset: "set (AList.delete k km) \<subseteq> set km"
  by (induction km) auto

lemma delete_key_gone: "(k', a) \<in> set (AList.delete k km) \<Longrightarrow> k' \<noteq> k"
  by (induction km) (auto split: if_splits)

lemma set_update_cases:
  "(k', a) \<in> set (AList.update k v km) \<Longrightarrow> (k', a) = (k, v) \<or> (k', a) \<in> set km"
  by (induction km) (auto split: if_splits)

lemma before_cons_other: "y \<noteq> p \<Longrightarrow> before (y # l) p x = before l p x"
  by simp

lemma Bx_remove1:
  assumes d: "distinct l" and b: "Bx h l E"
    and h': "\<And>x. x \<noteq> a \<Longrightarrow> parent (h' ! x) = parent (h ! x)"
  shows "Bx h' (remove1 a l) E"
  unfolding Bx_def
proof (intro ballI allI impI)
  fix x p
  assume x: "x \<in> set (remove1 a l)" and px: "parent (h' ! x) = Some p"
    and p: "p \<in> set (remove1 a l)"
  from d x have xa: "x \<noteq> a" and xl: "x \<in> set l" by auto
  from d p have pa: "p \<noteq> a" and pl: "p \<in> set l" by auto
  from b xl pl px h' [OF xa] have "before l p x \<or> x \<in> E" by (auto simp: Bx_def)
  then show "before (remove1 a l) p x \<or> x \<in> E"
    using before_remove1 [OF d _ _ _, of p x a] pa xa by auto
qed

lemma inv0_parts:
  "inv0 h l km E \<Longrightarrow> distinct l"
  "inv0 h l km E \<Longrightarrow> a \<in> set l \<Longrightarrow> a < length h"
  "inv0 h l km E \<Longrightarrow> validHeap h"
  "inv0 h l km E \<Longrightarrow> liveInList h l km"
  "inv0 h l km E \<Longrightarrow> Bx h l E"
  "inv0 h l km E \<Longrightarrow> childLinks h l"
  by (simp_all add: inv0_def)

lemma validHeap_parent: "validHeap h \<Longrightarrow> a < length h \<Longrightarrow> parent (h ! a) = Some p \<Longrightarrow> p < length h"
  unfolding validHeap_def by blast

lemma validHeap_child:
  "validHeap h \<Longrightarrow> a < length h \<Longrightarrow> (k, c) \<in> set (children (h ! a)) \<Longrightarrow>
   c < length h \<and> key (h ! c) = k"
  unfolding validHeap_def by blast

lemma childLinksD:
  "childLinks h l \<Longrightarrow> a < length h \<Longrightarrow> (k, c) \<in> set (children (h ! a)) \<Longrightarrow> c \<in> set l \<Longrightarrow>
   parent (h ! c) = Some a"
  unfolding childLinks_def by blast

lemma BxD:
  "Bx h l E \<Longrightarrow> x \<in> set l \<Longrightarrow> parent (h ! x) = Some p \<Longrightarrow> p \<in> set l \<Longrightarrow>
   before l p x \<or> x \<in> E"
  unfolding Bx_def by blast

lemma liveInListD:
  "liveInList h l km \<Longrightarrow> (k, a) \<in> set km \<Longrightarrow> a \<in> set l \<and> key (h ! a) = k"
  unfolding liveInList_def by blast

lemma inv0_heap_change:
  assumes i: "inv0 h l km E"
    and len: "length h' = length h"
    and keys: "\<And>x. key (h' ! x) = key (h ! x)"
    and ch: "\<And>x. set (children (h' ! x)) \<subseteq> set (children (h ! x))"
    and par: "\<And>x. parent (h' ! x) = parent (h ! x) \<or> (parent (h' ! x) = None \<and> x \<notin> set l)"
  shows "inv0 h' l km E"
proof -
  note vh = inv0_parts(3) [OF i] and bh = inv0_parts(5) [OF i] and cl = inv0_parts(6) [OF i]
    and li = inv0_parts(4) [OF i]
  have v: "validHeap h'"
    unfolding validHeap_def
  proof (intro allI impI conjI)
    fix a p assume a: "a < length h'" and p: "parent (h' ! a) = Some p"
    from par [of a] p have "parent (h ! a) = Some p" by auto
    with validHeap_parent [OF vh, of a p] a len show "p < length h'" by simp
  next
    fix a k c assume a: "a < length h'" and m: "(k, c) \<in> set (children (h' ! a))"
    from m ch [of a] have "(k, c) \<in> set (children (h ! a))" by blast
    with validHeap_child [OF vh, of a k c] a len have "c < length h \<and> key (h ! c) = k" by simp
    then show "c < length h'" "key (h' ! c) = k" using len keys by simp_all
  qed
  have b: "Bx h' l E"
    unfolding Bx_def
  proof (intro ballI allI impI)
    fix x p assume x: "x \<in> set l" and p: "parent (h' ! x) = Some p" and pl: "p \<in> set l"
    from par [of x] p have "parent (h ! x) = Some p" by auto
    then show "before l p x \<or> x \<in> E" using BxD [OF bh x _ pl] by simp
  qed
  have c: "childLinks h' l"
    unfolding childLinks_def
  proof (intro allI impI)
    fix a k c assume a: "a < length h'" and m: "(k, c) \<in> set (children (h' ! a))"
      and cl': "c \<in> set l"
    from m ch [of a] have "(k, c) \<in> set (children (h ! a))" by blast
    with childLinksD [OF cl, of a k c] a len cl' have "parent (h ! c) = Some a" by simp
    with par [of c] cl' show "parent (h' ! c) = Some a" by auto
  qed
  have l': "liveInList h' l km"
    using li keys by (simp add: liveInList_def)
  have bound: "\<forall>a\<in>set l. a < length h'"
    using inv0_parts(2) [OF i] len by simp
  show ?thesis
    unfolding inv0_def using inv0_parts(1) [OF i] bound v l' b c by simp
qed

lemma inv0_unlist:
  assumes i: "inv0 h l km E"
  shows "inv0 h (remove1 a l) (AList.delete (key (h ! a)) km) E"
proof -
  note d = inv0_parts(1) [OF i] and li0 = inv0_parts(4) [OF i] and cl = inv0_parts(6) [OF i]
  have li: "liveInList h (remove1 a l) (AList.delete (key (h ! a)) km)"
    unfolding liveInList_def
  proof (intro allI impI)
    fix k x assume m: "(k, x) \<in> set (AList.delete (key (h ! a)) km)"
    then have mk: "(k, x) \<in> set km" and ne: "k \<noteq> key (h ! a)"
      using set_delete_subset [of "key (h ! a)" km] delete_key_gone [OF m] by auto
    from liveInListD [OF li0 mk] have "x \<in> set l" "key (h ! x) = k" by simp_all
    with ne d show "x \<in> set (remove1 a l) \<and> key (h ! x) = k" by auto
  qed
  have sub: "set (remove1 a l) \<subseteq> set l" by (rule set_remove1_subset)
  have c: "childLinks h (remove1 a l)"
    unfolding childLinks_def using childLinksD [OF cl] sub by blast
  have bx: "Bx h (remove1 a l) E"
    by (rule Bx_remove1 [OF d inv0_parts(5) [OF i]]) simp
  have bound: "\<forall>x\<in>set (remove1 a l). x < length h"
    using inv0_parts(2) [OF i] sub by blast
  show ?thesis
    unfolding inv0_def using d bound inv0_parts(3) [OF i] li bx c by simp
qed

lemma removeFromParent_props:
  "length (removeFromParent n h) = length h"
  "key (removeFromParent n h ! x) = key (h ! x)"
  "set (children (removeFromParent n h ! x)) \<subseteq> set (children (h ! x))"
  "x \<noteq> n \<Longrightarrow> parent (removeFromParent n h ! x) = parent (h ! x)"
  "parent (removeFromParent n h ! n) = parent (h ! n) \<or> parent (removeFromParent n h ! n) = None"
proof -
  show "length (removeFromParent n h) = length h"
    by (simp add: removeFromParent_def Let_def split: option.splits)
  show "key (removeFromParent n h ! x) = key (h ! x)"
    by (auto simp: removeFromParent_def Let_def key_parent_update key_children_update
        split: option.splits)
  show "set (children (removeFromParent n h ! x)) \<subseteq> set (children (h ! x))"
  proof (cases "parent (h ! n)")
    case None
    then show ?thesis by (simp add: removeFromParent_def)
  next
    case (Some p)
    let ?h1 = "h[p := (h ! p)\<lparr>children := AList.delete (key (h ! n)) (children (h ! p))\<rparr>]"
    have "set (children (?h1 ! x)) \<subseteq> set (children (h ! x))"
      using set_delete_subset [of "key (h ! n)" "children (h ! p)"]
      by (cases "p < length h"; cases "x = p") (simp_all add: list_update_beyond)
    then show ?thesis
      using Some by (simp add: removeFromParent_def Let_def children_parent_update)
  qed
  show "x \<noteq> n \<Longrightarrow> parent (removeFromParent n h ! x) = parent (h ! x)"
  proof (cases "parent (h ! n)")
    case None
    then show ?thesis by (simp add: removeFromParent_def)
  next
    case (Some p)
    assume "x \<noteq> n"
    then show ?thesis
      using Some
      by (cases "p < length h"; cases "x = p")
         (simp_all add: removeFromParent_def Let_def list_update_beyond)
  qed
  show "parent (removeFromParent n h ! n) = parent (h ! n) \<or> parent (removeFromParent n h ! n) = None"
  proof (cases "parent (h ! n)")
    case None
    then show ?thesis by (simp add: removeFromParent_def)
  next
    case (Some p)
    let ?h1 = "h[p := (h ! p)\<lparr>children := AList.delete (key (h ! n)) (children (h ! p))\<rparr>]"
    have 1: "parent (?h1 ! n) = parent (h ! n)"
      by (cases "p < length h"; cases "n = p") (simp_all add: list_update_beyond)
    show ?thesis
      using Some 1
      by (cases "n < length h") (simp_all add: removeFromParent_def Let_def list_update_beyond)
  qed
qed

lemma inv0_removeFromParent:
  assumes i: "inv0 h l km E" and n: "n \<notin> set l \<or> parent (h ! n) = None"
  shows "inv0 (removeFromParent n h) l km E"
proof (rule inv0_heap_change [OF i])
  show "length (removeFromParent n h) = length h" by (rule removeFromParent_props)
  show "\<And>x. key (removeFromParent n h ! x) = key (h ! x)" by (rule removeFromParent_props)
  show "\<And>x. set (children (removeFromParent n h ! x)) \<subseteq> set (children (h ! x))"
    by (rule removeFromParent_props)
  show "\<And>x. parent (removeFromParent n h ! x) = parent (h ! x)
          \<or> (parent (removeFromParent n h ! x) = None \<and> x \<notin> set l)"
  proof -
    fix x
    show "parent (removeFromParent n h ! x) = parent (h ! x)
          \<or> (parent (removeFromParent n h ! x) = None \<and> x \<notin> set l)"
    proof (cases "x = n")
      case True
      with n removeFromParent_props(5) [of n h] show ?thesis
        by (auto simp: removeFromParent_def)
    next
      case False
      then show ?thesis by (simp add: removeFromParent_props(4))
    qed
  qed
qed

lemma inv0_evict:
  assumes i: "inv0 h l km {}" and ne: "l \<noteq> []"
  shows "inv0 (removeFromParent (last l) h) (butlast l) (AList.delete (key (h ! last l)) km) {}"
proof -
  from i have d: "distinct l" by (simp add: inv0_def)
  have 1: "inv0 h (butlast l) (AList.delete (key (h ! last l)) km) {}"
    using inv0_unlist [OF i, of "last l"] butlast_remove1_last [OF d ne] by simp
  have "last l \<notin> set (butlast l)"
    using d ne butlast_remove1_last [OF d ne] by simp
  then show ?thesis by (intro inv0_removeFromParent [OF 1]) simp
qed

lemma inv0_RCall:
  assumes i: "inv0 h l km E"
  shows "inv0 (h[n := (h ! n)\<lparr>parent := None\<rparr>]) (listRemove n l)
           (AList.delete (key (h ! n)) km) E"
proof -
  have 1: "inv0 h (remove1 n l) (AList.delete (key (h ! n)) km) E"
    by (rule inv0_unlist [OF i])
  have nl: "n \<notin> set (remove1 n l)" using inv0_parts(1) [OF i] by simp
  have "inv0 (h[n := (h ! n)\<lparr>parent := None\<rparr>]) (remove1 n l)
           (AList.delete (key (h ! n)) km) E"
  proof (rule inv0_heap_change [OF 1])
    show "length (h[n := (h ! n)\<lparr>parent := None\<rparr>]) = length h" by simp
    show "\<And>x. key (h[n := (h ! n)\<lparr>parent := None\<rparr>] ! x) = key (h ! x)"
      by (rule key_parent_update)
    show "\<And>x. set (children (h[n := (h ! n)\<lparr>parent := None\<rparr>] ! x)) \<subseteq> set (children (h ! x))"
      by (simp add: children_parent_update)
    show "\<And>x. parent (h[n := (h ! n)\<lparr>parent := None\<rparr>] ! x) = parent (h ! x)
            \<or> (parent (h[n := (h ! n)\<lparr>parent := None\<rparr>] ! x) = None \<and> x \<notin> set (remove1 n l))"
    proof -
      fix x
      show "parent (h[n := (h ! n)\<lparr>parent := None\<rparr>] ! x) = parent (h ! x)
            \<or> (parent (h[n := (h ! n)\<lparr>parent := None\<rparr>] ! x) = None \<and> x \<notin> set (remove1 n l))"
        using nl by (cases "n < length h"; cases "x = n") (simp_all add: list_update_beyond)
    qed
  qed
  then show ?thesis by (simp add: listRemove_def)
qed

lemma inv0_RClear:
  assumes i: "inv0 h l km E"
  shows "inv0 (h[n := (h ! n)\<lparr>children := []\<rparr>]) l km E"
proof (rule inv0_heap_change [OF i])
  show "length (h[n := (h ! n)\<lparr>children := []\<rparr>]) = length h" by simp
  show "\<And>x. key (h[n := (h ! n)\<lparr>children := []\<rparr>] ! x) = key (h ! x)"
    by (rule key_children_update)
  show "\<And>x. set (children (h[n := (h ! n)\<lparr>children := []\<rparr>] ! x)) \<subseteq> set (children (h ! x))"
  proof -
    fix x
    show "set (children (h[n := (h ! n)\<lparr>children := []\<rparr>] ! x)) \<subseteq> set (children (h ! x))"
      by (cases "n < length h"; cases "x = n") (simp_all add: list_update_beyond)
  qed
  show "\<And>x. parent (h[n := (h ! n)\<lparr>children := []\<rparr>] ! x) = parent (h ! x)
          \<or> (parent (h[n := (h ! n)\<lparr>children := []\<rparr>] ! x) = None \<and> x \<notin> set l)"
  proof -
    fix x
    show "parent (h[n := (h ! n)\<lparr>children := []\<rparr>] ! x) = parent (h ! x)
          \<or> (parent (h[n := (h ! n)\<lparr>children := []\<rparr>] ! x) = None \<and> x \<notin> set l)"
      by (cases "n < length h"; cases "x = n") (simp_all add: list_update_beyond)
  qed
qed

lemma removeRecursively_inv:
  assumes "removeRecursively ord stack km h l cnt = Some r"
  shows "inv0 h l km E \<Longrightarrow>
         inv0 (fst (snd r)) (fst (snd (snd r))) (fst r) E
         \<and> set (fst (snd (snd r))) \<subseteq> set l
         \<and> (\<forall>n. RCall n \<in> set stack \<longrightarrow> n \<notin> set (fst (snd (snd r))))"
  using assms
proof (induction ord stack km h l cnt r
    rule: removeRecursively.raw_induct [rotated 1, consumes 1])
  case (1 removeRecursively ord stack km h l cnt r)
  show ?case
  proof (cases stack)
    case Nil
    with 1(2) 1(3) show ?thesis by auto
  next
    case (Cons fr rest)
    show ?thesis
    proof (cases fr)
      case (RCall n)
      let ?st = "map (\<lambda>kc. RCall (snd kc)) (ord n (children (h ! n))) @ RClear n # rest"
      from 1(2) Cons RCall
      have r: "removeRecursively ord ?st (AList.delete (key (h ! n)) km)
                 (h[n := (h ! n)\<lparr>parent := None\<rparr>]) (listRemove n l) (cnt + 1) = Some r"
        by simp
      from 1(1) [OF r inv0_RCall [OF 1(3)]]
      have res: "inv0 (fst (snd r)) (fst (snd (snd r))) (fst r) E"
        and sub: "set (fst (snd (snd r))) \<subseteq> set (listRemove n l)"
        and calls: "\<forall>m. RCall m \<in> set ?st \<longrightarrow> m \<notin> set (fst (snd (snd r)))"
        by simp_all
      have nl: "n \<notin> set (listRemove n l)"
        using inv0_parts(1) [OF 1(3)] by (simp add: listRemove_def)
      have sl: "set (listRemove n l) \<subseteq> set l"
        by (simp add: listRemove_def set_remove1_subset)
      show ?thesis
        using res sub calls nl sl Cons RCall by auto
    next
      case (RClear n)
      from 1(2) Cons RClear
      have r: "removeRecursively ord rest km (h[n := (h ! n)\<lparr>children := []\<rparr>]) l cnt = Some r"
        by simp
      from 1(1) [OF r inv0_RClear [OF 1(3)]] show ?thesis
        using Cons RClear by auto
    qed
  qed
qed

lemma INV_Remove:
  assumes i: "INV c" and r: "Remove ord c k = Some (c', cnt)"
  shows "INV c'"
proof (cases "map_of (keysMap c) k")
  case None
  with r i show ?thesis by (simp add: Remove_def)
next
  case (Some n)
  with r obtain km' h' l' cnt'
    where rr: "removeRecursively ord [RCall n] (keysMap c) (heap c) (lruList c) 0
                 = Some (km', h', l', cnt')"
      and c': "c' = c\<lparr>keysMap := km', heap := removeFromParent n h', lruList := l',
                       stats := stats c @ [SetAmount (int (length km'))]\<rparr>"
    by (auto simp: Remove_def split: option.splits)
  from removeRecursively_inv [OF rr, of "{}"] i
  have 1: "inv0 h' l' km' {}" and nl: "n \<notin> set l'" by (simp_all add: INV_def)
  have "inv0 (removeFromParent n h') l' km' {}"
    by (rule inv0_removeFromParent [OF 1]) (simp add: nl)
  then show ?thesis by (simp add: INV_def c')
qed

lemma INV_NewCache: "INV (NewCache m cb)"
  by (simp add: INV_def NewCache_def inv0_def validHeap_def liveInList_def Bx_def childLinks_def)

lemma Pn_None [simp]: "Pn h None = {}"
  by (simp add: Pn_def)

lemma inv0_alloc:
  assumes i: "inv0 h l km {}" and po: "\<And>p. po = Some p \<Longrightarrow> p < length h"
  shows "inv0 (h @ [newTreeNode k v po]) (length h # l) (AList.update k (length h) km)
           (Pn (h @ [newTreeNode k v po]) po)"
proof -
  let ?n = "length h"
  let ?h = "h @ [newTreeNode k v po]"
  note d = inv0_parts(1) [OF i] and vh = inv0_parts(3) [OF i] and li = inv0_parts(4) [OF i]
    and bx = inv0_parts(5) [OF i] and cl = inv0_parts(6) [OF i]
  have bnd: "\<And>a. a \<in> set l \<Longrightarrow> a < ?n" using inv0_parts(2) [OF i] by simp
  have old: "\<And>a. a < ?n \<Longrightarrow> ?h ! a = h ! a" by (simp add: nth_append)
  have new: "?h ! ?n = newTreeNode k v po" by simp
  have nl: "?n \<notin> set l" using bnd by blast
  have v: "validHeap ?h"
    unfolding validHeap_def
  proof (intro allI impI conjI)
    fix a p assume a: "a < length ?h" and p: "parent (?h ! a) = Some p"
    show "p < length ?h"
    proof (cases "a = ?n")
      case True
      with p po [of p] show ?thesis by (simp add: newTreeNode_def)
    next
      case False
      with a have "a < ?n" by simp
      with p old validHeap_parent [OF vh, of a p] show ?thesis by simp
    qed
  next
    fix a k' c assume a: "a < length ?h" and m: "(k', c) \<in> set (children (?h ! a))"
    have "a \<noteq> ?n" using m by (auto simp: newTreeNode_def)
    with a have al: "a < ?n" by simp
    with m old have "(k', c) \<in> set (children (h ! a))" by simp
    from validHeap_child [OF vh al this] have "c < ?n" "key (h ! c) = k'" by simp_all
    then show "c < length ?h" "key (?h ! c) = k'" using old by simp_all
  qed
  have lv: "liveInList ?h (?n # l) (AList.update k ?n km)"
    unfolding liveInList_def
  proof (intro allI impI)
    fix k' a assume "(k', a) \<in> set (AList.update k ?n km)"
    from set_update_cases [OF this] show "a \<in> set (?n # l) \<and> key (?h ! a) = k'"
    proof
      assume "(k', a) = (k, ?n)"
      then show ?thesis by (simp add: newTreeNode_def)
    next
      assume "(k', a) \<in> set km"
      from liveInListD [OF li this] have "a \<in> set l" "key (h ! a) = k'" by simp_all
      with bnd [of a] old [of a] show ?thesis by simp
    qed
  qed
  have b: "Bx ?h (?n # l) (Pn ?h po)"
    unfolding Bx_def
  proof (intro ballI allI impI)
    fix x p assume x: "x \<in> set (?n # l)" and px: "parent (?h ! x) = Some p"
      and p: "p \<in> set (?n # l)"
    show "before (?n # l) p x \<or> x \<in> Pn ?h po"
    proof (cases "x = ?n")
      case True
      with px show ?thesis by (simp add: Pn_def newTreeNode_def)
    next
      case False
      with x have xl: "x \<in> set l" by simp
      with px old bnd have px': "parent (h ! x) = Some p" by simp
      from validHeap_parent [OF vh bnd [OF xl] px'] have pn: "p \<noteq> ?n" by simp
      with p have pl: "p \<in> set l" by simp
      from BxD [OF bx xl px' pl] have "before l p x" by simp
      with pn show ?thesis by simp
    qed
  qed
  have c: "childLinks ?h (?n # l)"
    unfolding childLinks_def
  proof (intro allI impI)
    fix a k' c assume a: "a < length ?h" and m: "(k', c) \<in> set (children (?h ! a))"
      and cl': "c \<in> set (?n # l)"
    have "a \<noteq> ?n" using m by (auto simp: newTreeNode_def)
    with a have al: "a < ?n" by simp
    with m old have m': "(k', c) \<in> set (children (h ! a))" by simp
    from validHeap_child [OF vh al m'] have cn: "c < ?n" by simp
    with cl' have "c \<in> set l" by simp
    from childLinksD [OF cl al m' this] cn old show "parent (?h ! c) = Some a" by simp
  qed
  have bound: "\<forall>a\<in>set (?n # l). a < length ?h"
    using bnd by (auto simp: less_Suc_eq)
  show ?thesis
    unfolding inv0_def using d nl bound v lv b c by simp
qed

lemma inv0_link:
  assumes i: "inv0 h l km E" and p: "p < length h" and n: "n < length h"
    and pn: "parent (h ! n) = Some p" and kn: "key (h ! n) = k"
  shows "inv0 (h[p := (h ! p)\<lparr>children := AList.update k n (children (h ! p))\<rparr>]) l km E"
proof -
  let ?h = "h[p := (h ! p)\<lparr>children := AList.update k n (children (h ! p))\<rparr>]"
  note vh = inv0_parts(3) [OF i] and li = inv0_parts(4) [OF i]
    and bx = inv0_parts(5) [OF i] and cl = inv0_parts(6) [OF i]
  have par: "\<And>x. parent (?h ! x) = parent (h ! x)"
    using p by (case_tac "x = p") simp_all
  have key: "\<And>x. key (?h ! x) = key (h ! x)"
    using p by (case_tac "x = p") simp_all
  have chs: "\<And>a k' c. (k', c) \<in> set (children (?h ! a)) \<Longrightarrow>
               (a = p \<and> (k', c) = (k, n)) \<or> (k', c) \<in> set (children (h ! a))"
  proof -
    fix a k' c assume m: "(k', c) \<in> set (children (?h ! a))"
    show "(a = p \<and> (k', c) = (k, n)) \<or> (k', c) \<in> set (children (h ! a))"
    proof (cases "a = p")
      case True
      with m p have "(k', c) \<in> set (AList.update k n (children (h ! p)))" by simp
      from set_update_cases [OF this] True show ?thesis by auto
    next
      case False
      with m show ?thesis by simp
    qed
  qed
  have v: "validHeap ?h"
    unfolding validHeap_def
  proof (intro allI impI conjI)
    fix a q assume "a < length ?h" "parent (?h ! a) = Some q"
    with validHeap_parent [OF vh, of a q] par show "q < length ?h" by simp
  next
    fix a k' c assume a: "a < length ?h" and m: "(k', c) \<in> set (children (?h ! a))"
    from chs [OF m] have "c < length h \<and> key (h ! c) = k'"
    proof
      assume "a = p \<and> (k', c) = (k, n)"
      then show ?thesis using n kn by simp
    next
      assume "(k', c) \<in> set (children (h ! a))"
      from validHeap_child [OF vh _ this] a show ?thesis by simp
    qed
    then show "c < length ?h" "key (?h ! c) = k'" using key by simp_all
  qed
  have b: "Bx ?h l E"
    using bx par by (simp add: Bx_def)
  have c: "childLinks ?h l"
    unfolding childLinks_def
  proof (intro allI impI)
    fix a k' c assume a: "a < length ?h" and m: "(k', c) \<in> set (children (?h ! a))"
      and cl': "c \<in> set l"
    from chs [OF m] have "parent (h ! c) = Some a"
    proof
      assume "a = p \<and> (k', c) = (k, n)"
      then show ?thesis using pn by simp
    next
      assume "(k', c) \<in> set (children (h ! a))"
      from childLinksD [OF cl _ this cl'] a show ?thesis by simp
    qed
    then show "parent (?h ! c) = Some a" using par by simp
  qed
  have lv: "liveInList ?h l km" using li key by (simp add: liveInList_def)
  have bound: "\<forall>a\<in>set l. a < length ?h" using inv0_parts(2) [OF i] by simp
  show ?thesis
    unfolding inv0_def using inv0_parts(1) [OF i] bound v lv b c by simp
qed

lemma Pn_cong: "(\<And>x. parent (h' ! x) = parent (h ! x)) \<Longrightarrow> Pn h' n = Pn h n"
  by (simp add: Pn_def)

lemma map_of_live:
  "INV c \<Longrightarrow> map_of (keysMap c) k = Some a \<Longrightarrow>
   a \<in> set (lruList c) \<and> a < length (heap c) \<and> key (heap c ! a) = k"
  using liveInListD [of "heap c" "lruList c" "keysMap c" k a]
  by (auto simp: INV_def dest: map_of_SomeD inv0_parts(4) inv0_parts(2))

lemma READY_insertNode:
  assumes i: "INV c" and p: "map_of (keysMap c) pk = Some p"
  shows "READY (insertNode c k v p) (length (heap c))"
proof -
  let ?n = "length (heap c)"
  let ?h1 = "heap c @ [newTreeNode k v (Some p)]"
  let ?h2 = "?h1[p := (?h1 ! p)\<lparr>children := AList.update k ?n (children (?h1 ! p))\<rparr>]"
  from map_of_live [OF i p] have pl: "p < ?n" by simp
  have 1: "inv0 ?h1 (?n # lruList c) (AList.update k ?n (keysMap c)) (Pn ?h1 (Some p))"
    using i pl by (intro inv0_alloc) (simp_all add: INV_def)
  have 2: "inv0 ?h2 (?n # lruList c) (AList.update k ?n (keysMap c)) (Pn ?h1 (Some p))"
    using pl by (intro inv0_link [OF 1]) (simp_all add: newTreeNode_def)
  have par: "\<And>x. parent (?h2 ! x) = parent (?h1 ! x)"
    using pl by (case_tac "x = p") simp_all
  have new: "parent (?h2 ! ?n) = Some p"
    using pl by (simp add: newTreeNode_def)
  show ?thesis
    using 2 Pn_cong [of ?h2 ?h1 "Some p", OF par] new
    by (simp add: READY_def insertNode_fields)
qed

lemma INV_AddRoot:
  assumes i: "INV c"
  shows "INV (fst (AddRoot c k v))"
proof (cases "root c")
  case None
  have "inv0 (heap c @ [newTreeNode k v None]) (length (heap c) # lruList c)
          (AList.update k (length (heap c)) (keysMap c))
          (Pn (heap c @ [newTreeNode k v None]) None)"
    using i by (intro inv0_alloc) (simp_all add: INV_def)
  then show ?thesis using None by (simp add: AddRoot_def Let_def INV_def PushFront_def)
next
  case (Some r)
  with i show ?thesis by (simp add: AddRoot_def)
qed

lemma INV_promoteAncestors:
  assumes r: "READY c n" and p: "promoteAncestors c n = Some c'"
  shows "INV c'"
proof -
  from p obtain l where pl: "promote (heap c) (parent (heap c ! n)) (lruList c) = Some l"
    and c': "c' = c\<lparr>lruList := l\<rparr>"
    by (auto simp: promoteAncestors_def split: option.splits)
  from inv0_promote [OF _ pl] r show ?thesis by (simp add: READY_def INV_def c')
qed

lemma INV_evict:
  assumes i: "INV c"
  shows "INV (fst (evict c))"
proof (cases "lruList c = []")
  case True
  with i show ?thesis by (simp add: evict_def)
next
  case False
  from inv0_evict [OF _ False] i show ?thesis
    using False by (simp add: evict_def Let_def INV_def)
qed

lemma INV_evictIfOver: "INV c \<Longrightarrow> INV (fst (evictIfOver c))"
  by (simp add: evictIfOver_def INV_evict)

lemma INV_stats [simp]: "INV (c\<lparr>stats := s\<rparr>) = INV c"
  by (simp add: INV_def)

lemma INV_promoteAndEvict:
  assumes r: "READY c n" and p: "promoteAndEvict c n = Some (c', e, cb)"
  shows "INV c'"
proof -
  from p obtain c1 where 1: "promoteAncestors c n = Some c1"
    and c': "c' = (fst (evictIfOver c1))\<lparr>stats := stats (fst (evictIfOver c1))
                   @ [SetAmount (int (length (keysMap (fst (evictIfOver c1)))))]\<rparr>"
    by (auto simp: promoteAndEvict_def Let_def split: option.splits)
  from INV_evictIfOver [OF INV_promoteAncestors [OF r 1]] show ?thesis by (simp add: c')
qed

lemma INV_Add:
  assumes i: "INV c" and a: "Add c k v pk = Some (c', e, cb)"
  shows "INV c'"
proof (cases "map_of (keysMap c) pk")
  case None
  with a i show ?thesis by (simp add: Add_def)
next
  case (Some p)
  show ?thesis
  proof (cases "map_of (keysMap c) k")
    case None
    with a Some have "promoteAndEvict (insertNode c k v p) (length (heap c)) = Some (c', e, cb)"
      by (simp add: Add_def)
    from INV_promoteAndEvict [OF READY_insertNode [OF i Some] this] show ?thesis .
  next
    case (Some n)
    with a \<open>map_of (keysMap c) pk = Some p\<close> i show ?thesis by (simp add: Add_def)
  qed
qed

lemma inv0_MoveToFront:
  assumes i: "inv0 h l km E"
  shows "inv0 h (MoveToFront a l) km (insert a (E - {x. parent (h ! x) = Some a}))"
  unfolding inv0_def
  using inv0_parts(1) [OF i] inv0_parts(2) [OF i] inv0_parts(3) [OF i] inv0_parts(4) [OF i]
    inv0_parts(6) [OF i] Bx_MoveToFront [OF inv0_parts(1) [OF i] inv0_parts(5) [OF i], of a]
  by (simp add: liveInList_def childLinks_def)

lemma inv0_detach:
  assumes i: "inv0 h l km E" and nl: "n \<in> set l"
  shows "inv0 (removeFromParent n h) l km E \<and> noEntry (removeFromParent n h) n"
proof -
  let ?h = "removeFromParent n h"
  note vh = inv0_parts(3) [OF i] and li = inv0_parts(4) [OF i]
    and bx = inv0_parts(5) [OF i] and cl = inv0_parts(6) [OF i]
  have n: "n < length h" using inv0_parts(2) [OF i nl] .
  have len: "length ?h = length h" by (rule removeFromParent_props)
  have ne: "noEntry ?h n"
    unfolding noEntry_def
  proof (intro allI impI notI)
    fix a k assume a: "a < length ?h" and m: "(k, n) \<in> set (children (?h ! a))"
    from m removeFromParent_props(3) [of n h a] have m0: "(k, n) \<in> set (children (h ! a))"
      by blast
    from a len have al: "a < length h" by simp
    from childLinksD [OF cl al m0 nl] have pa: "parent (h ! n) = Some a" .
    from validHeap_child [OF vh al m0] have kk: "key (h ! n) = k" by simp
    let ?h1 = "h[a := (h ! a)\<lparr>children := AList.delete (key (h ! n)) (children (h ! a))\<rparr>]"
    have "children (?h ! a) = children (?h1 ! a)"
      using pa by (simp add: removeFromParent_def Let_def children_parent_update)
    also have "\<dots> = AList.delete k (children (h ! a))" using al kk by simp
    finally have "(k, n) \<in> set (AList.delete k (children (h ! a)))" using m by simp
    from delete_key_gone [OF this] show False by simp
  qed
  have v: "validHeap ?h"
    unfolding validHeap_def
  proof (intro allI impI conjI)
    fix a p assume a: "a < length ?h" and p: "parent (?h ! a) = Some p"
    have "parent (h ! a) = Some p"
      using p removeFromParent_props(4) [of a n h] removeFromParent_props(5) [of n h]
      by (cases "a = n") auto
    with validHeap_parent [OF vh, of a p] a len show "p < length ?h" by simp
  next
    fix a k c assume a: "a < length ?h" and m: "(k, c) \<in> set (children (?h ! a))"
    from m removeFromParent_props(3) [of n h a] have "(k, c) \<in> set (children (h ! a))" by blast
    with validHeap_child [OF vh, of a k c] a len have "c < length h \<and> key (h ! c) = k" by simp
    then show "c < length ?h" "key (?h ! c) = k"
      using len removeFromParent_props(2) [of n h c] by simp_all
  qed
  have b: "Bx ?h l E"
    unfolding Bx_def
  proof (intro ballI allI impI)
    fix x p assume x: "x \<in> set l" and p: "parent (?h ! x) = Some p" and pl: "p \<in> set l"
    have "parent (h ! x) = Some p"
      using p removeFromParent_props(4) [of x n h] removeFromParent_props(5) [of n h]
      by (cases "x = n") auto
    then show "before l p x \<or> x \<in> E" using BxD [OF bx x _ pl] by simp
  qed
  have c: "childLinks ?h l"
    unfolding childLinks_def
  proof (intro allI impI)
    fix a k c assume a: "a < length ?h" and m: "(k, c) \<in> set (children (?h ! a))"
      and cl': "c \<in> set l"
    have cn: "c \<noteq> n" using ne a m by (auto simp: noEntry_def)
    from m removeFromParent_props(3) [of n h a] have "(k, c) \<in> set (children (h ! a))" by blast
    with childLinksD [OF cl, of a k c] a len cl' have "parent (h ! c) = Some a" by simp
    with removeFromParent_props(4) [OF cn, of h] show "parent (?h ! c) = Some a" by simp
  qed
  have lv: "liveInList ?h l km"
    using li removeFromParent_props(2) [of n h] by (simp add: liveInList_def)
  have bound: "\<forall>a\<in>set l. a < length ?h" using inv0_parts(2) [OF i] len by simp
  have "inv0 ?h l km E"
    unfolding inv0_def using inv0_parts(1) [OF i] bound v lv b c by simp
  with ne show ?thesis by simp
qed

lemma inv0_set_parent:
  assumes i: "inv0 h l km E" and n: "n < length h" and p: "p < length h" and ne: "noEntry h n"
  shows "inv0 (h[n := (h ! n)\<lparr>parent := Some p\<rparr>]) l km (insert n E)"
proof -
  let ?h = "h[n := (h ! n)\<lparr>parent := Some p\<rparr>]"
  note vh = inv0_parts(3) [OF i] and li = inv0_parts(4) [OF i]
    and bx = inv0_parts(5) [OF i] and cl = inv0_parts(6) [OF i]
  have par: "\<And>x. x \<noteq> n \<Longrightarrow> parent (?h ! x) = parent (h ! x)" by simp
  have parn: "parent (?h ! n) = Some p" using n by simp
  have ch: "\<And>x. children (?h ! x) = children (h ! x)" by (rule children_parent_update)
  have key: "\<And>x. key (?h ! x) = key (h ! x)" by (rule key_parent_update)
  have v: "validHeap ?h"
    unfolding validHeap_def
  proof (intro allI impI conjI)
    fix a q assume a: "a < length ?h" and q: "parent (?h ! a) = Some q"
    show "q < length ?h"
    proof (cases "a = n")
      case True
      with q parn p show ?thesis by simp
    next
      case False
      with q par validHeap_parent [OF vh, of a q] a show ?thesis by simp
    qed
  next
    fix a k c assume a: "a < length ?h" and m: "(k, c) \<in> set (children (?h ! a))"
    with validHeap_child [OF vh, of a k c] ch have "c < length h \<and> key (h ! c) = k" by simp
    then show "c < length ?h" "key (?h ! c) = k" using key by simp_all
  qed
  have b: "Bx ?h l (insert n E)"
    unfolding Bx_def
  proof (intro ballI allI impI)
    fix x q assume x: "x \<in> set l" and q: "parent (?h ! x) = Some q" and ql: "q \<in> set l"
    show "before l q x \<or> x \<in> insert n E"
    proof (cases "x = n")
      case True
      then show ?thesis by simp
    next
      case False
      with q par have "parent (h ! x) = Some q" by simp
      from BxD [OF bx x this ql] show ?thesis by auto
    qed
  qed
  have c: "childLinks ?h l"
    unfolding childLinks_def
  proof (intro allI impI)
    fix a k c assume a: "a < length ?h" and m: "(k, c) \<in> set (children (?h ! a))"
      and cl': "c \<in> set l"
    from m ch have m0: "(k, c) \<in> set (children (h ! a))" by simp
    have cn: "c \<noteq> n" using ne a m0 by (auto simp: noEntry_def)
    from childLinksD [OF cl _ m0 cl'] a have "parent (h ! c) = Some a" by simp
    with par [OF cn] show "parent (?h ! c) = Some a" by simp
  qed
  have lv: "liveInList ?h l km" using li key by (simp add: liveInList_def)
  have bound: "\<forall>a\<in>set l. a < length ?h" using inv0_parts(2) [OF i] by simp
  show ?thesis
    unfolding inv0_def using inv0_parts(1) [OF i] bound v lv b c by simp
qed

lemma inv0_set_val:
  assumes i: "inv0 h l km E"
  shows "inv0 (h[n := (h ! n)\<lparr>val := v\<rparr>]) l km E"
proof (rule inv0_heap_change [OF i])
  show "length (h[n := (h ! n)\<lparr>val := v\<rparr>]) = length h" by simp
  show "\<And>x. key (h[n := (h ! n)\<lparr>val := v\<rparr>] ! x) = key (h ! x)"
    by (case_tac "n < length h"; case_tac "x = n") (simp_all add: list_update_beyond)
  show "\<And>x. set (children (h[n := (h ! n)\<lparr>val := v\<rparr>] ! x)) \<subseteq> set (children (h ! x))"
    by (case_tac "n < length h"; case_tac "x = n") (simp_all add: list_update_beyond)
  show "\<And>x. parent (h[n := (h ! n)\<lparr>val := v\<rparr>] ! x) = parent (h ! x)
          \<or> (parent (h[n := (h ! n)\<lparr>val := v\<rparr>] ! x) = None \<and> x \<notin> set l)"
    by (case_tac "n < length h"; case_tac "x = n") (simp_all add: list_update_beyond)
qed

lemma parent_val_update: "parent ((h[n := (h ! n)\<lparr>val := v\<rparr>]) ! x) = parent (h ! x)"
  by (cases "n < length h"; cases "x = n") (simp_all add: list_update_beyond)

lemma parent_children_update:
  "parent ((h[p := (h ! p)\<lparr>children := cs\<rparr>]) ! x) = parent (h ! x)"
  by (cases "p < length h"; cases "x = p") (simp_all add: list_update_beyond)

lemma READY_relink:
  assumes i: "INV c" and kn: "map_of (keysMap c) k = Some n"
    and kp: "map_of (keysMap c) pk = Some p"
  shows "READY (relinkNode c k v n p) n"
proof -
  let ?h = "heap c" and ?l = "lruList c" and ?km = "keysMap c"
  let ?h1 = "removeFromParent n ?h"
  let ?h2 = "?h1[n := (?h1 ! n)\<lparr>parent := Some p\<rparr>]"
  let ?h3 = "?h2[p := (?h2 ! p)\<lparr>children := AList.update k n (children (?h2 ! p))\<rparr>]"
  let ?h4 = "?h3[n := (?h3 ! n)\<lparr>val := v\<rparr>]"
  from map_of_live [OF i kn] have nl: "n \<in> set ?l" and n: "n < length ?h"
    and key: "key (?h ! n) = k" by simp_all
  from map_of_live [OF i kp] have p: "p < length ?h" by simp
  have i0: "inv0 ?h ?l ?km {}" using i by (simp add: INV_def)
  have len1: "length ?h1 = length ?h" by (rule removeFromParent_props)
  from inv0_detach [OF i0 nl] have d: "inv0 ?h1 ?l ?km {}" and ne: "noEntry ?h1 n" by simp_all
  have s: "inv0 ?h2 ?l ?km {n}"
    using inv0_set_parent [OF d _ _ ne, of p] n p len1 by simp
  have p2: "parent (?h2 ! n) = Some p" using n len1 by simp
  have k2: "key (?h2 ! n) = k"
    using key removeFromParent_props(2) [of n ?h n] by (simp add: key_parent_update)
  have l3: "inv0 ?h3 ?l ?km {n}"
    using inv0_link [OF s _ _ p2 k2] n p len1 by simp
  have v4: "inv0 ?h4 ?l ?km {n}" by (rule inv0_set_val [OF l3])
  have p3: "parent (?h3 ! n) = Some p"
    using p2 by (simp only: parent_children_update)
  have p4: "parent (?h4 ! n) = Some p"
    using p3 by (simp only: parent_val_update)
  define h4 where "h4 = ?h4"
  have v4': "inv0 h4 ?l ?km {n}" and p4': "parent (h4 ! n) = Some p"
    using v4 p4 by (simp_all only: h4_def)
  have m: "inv0 h4 (MoveToFront n ?l) ?km (insert n ({n} - {x. parent (h4 ! x) = Some n}))"
    by (rule inv0_MoveToFront [OF v4'])
  have "inv0 h4 (MoveToFront n ?l) ?km (Pn h4 (parent (h4 ! n)))"
    by (rule inv0_mono [OF m]) (auto simp: Pn_def p4')
  then have "READY (c\<lparr>heap := h4, lruList := MoveToFront n ?l\<rparr>) n"
    by (simp add: READY_def)
  then show ?thesis by (simp only: h4_def relinkNode_def Let_def)
qed

lemma READY_update:
  assumes i: "INV c" and kn: "map_of (keysMap c) k = Some n"
    and pn: "parent (heap c ! n) = Some p"
  shows "READY (updateNode c v n) n"
proof -
  let ?h = "(heap c)[n := (heap c ! n)\<lparr>val := v\<rparr>]"
  from map_of_live [OF i kn] have n: "n < length (heap c)" by simp
  have i0: "inv0 (heap c) (lruList c) (keysMap c) {}" using i by (simp add: INV_def)
  have p': "parent (?h ! n) = Some p" using pn by (simp only: parent_val_update)
  define h' where "h' = ?h"
  have v': "inv0 h' (lruList c) (keysMap c) {}" and p'': "parent (h' ! n) = Some p"
    using inv0_set_val [OF i0, of n v] p' by (simp_all only: h'_def)
  have m: "inv0 h' (MoveToFront n (lruList c)) (keysMap c)
             (insert n ({} - {x. parent (h' ! x) = Some n}))"
    by (rule inv0_MoveToFront [OF v'])
  have "inv0 h' (MoveToFront n (lruList c)) (keysMap c) (Pn h' (parent (h' ! n)))"
    by (rule inv0_mono [OF m]) (auto simp: Pn_def p'')
  then have "READY (c\<lparr>heap := h', lruList := MoveToFront n (lruList c)\<rparr>) n"
    by (simp add: READY_def)
  then show ?thesis by (simp only: h'_def updateNode_def Let_def)
qed

lemma INV_AddOrUpdate:
  assumes i: "INV c" and a: "AddOrUpdate c k v pk = Some (c', e, cb)"
  shows "INV c'"
proof (cases "map_of (keysMap c) pk")
  case None
  with a i show ?thesis by (simp add: AddOrUpdate_def)
next
  case (Some p)
  note kp = this
  show ?thesis
  proof (cases "map_of (keysMap c) k")
    case None
    with a kp have "promoteAndEvict (insertNode c k v p) (length (heap c)) = Some (c', e, cb)"
      by (simp add: AddOrUpdate_def)
    from INV_promoteAndEvict [OF READY_insertNode [OF i kp] this] show ?thesis .
  next
    case (Some n)
    note kn = this
    show ?thesis
    proof (cases "parent (heap c ! n) = Some p")
      case True
      with a kp kn
      have "promoteAndEvict (updateNode c v n) n = Some (c', e, cb)"
        by (simp add: AddOrUpdate_def)
      from INV_promoteAndEvict [OF READY_update [OF i kn True] this] show ?thesis .
    next
      case False
      show ?thesis
      proof (cases "cycleCheck (heap c) (Some p) n")
        case None
        with a kp kn False show ?thesis by (simp add: AddOrUpdate_def)
      next
        case (Some b)
        show ?thesis
        proof (cases b)
          case True
          with a kp kn False Some i show ?thesis by (simp add: AddOrUpdate_def)
        next
          case bf: False
          with a kp kn False Some
          have "promoteAndEvict (relinkNode c k v n p) n = Some (c', e, cb)"
            by (simp add: AddOrUpdate_def)
          from INV_promoteAndEvict [OF READY_relink [OF i kn kp] this] show ?thesis .
        qed
      qed
    qed
  qed
qed

lemma INV_lru_promote:
  assumes i: "INV c" and p: "promote (heap c) n (lruList c) = Some l"
  shows "INV (c\<lparr>lruList := l\<rparr>)"
proof -
  have "inv0 (heap c) (lruList c) (keysMap c) (Pn (heap c) n)"
    using i by (auto simp: INV_def intro: inv0_mono)
  from inv0_promote [OF this p] show ?thesis by (simp add: INV_def)
qed

lemma INV_Get: "INV c \<Longrightarrow> Get c k = Some (c', r) \<Longrightarrow> INV c'"
  using INV_lru_promote [of c]
  by (auto simp: Get_def split: option.splits)

lemma INV_Peek: "INV c \<Longrightarrow> INV (fst (Peek c k))"
  by (auto simp: Peek_def split: option.splits)

lemma INV_PeekBranch: "INV c \<Longrightarrow> PeekBranch c k = Some (c', r) \<Longrightarrow> INV c'"
  by (auto simp: PeekBranch_def split: option.splits)

lemma INV_GetBranch: "INV c \<Longrightarrow> GetBranch c k = Some (c', r) \<Longrightarrow> INV c'"
  using INV_lru_promote [of c]
  by (auto simp: GetBranch_def split: option.splits dest!: getBranchLoop_promote)

lemma INV_TraverseToRoot: "INV c \<Longrightarrow> TraverseToRoot c k = Some (c', r) \<Longrightarrow> INV c'"
  using INV_lru_promote [of c]
  by (auto simp: TraverseToRoot_def split: option.splits)

lemma goodStack_children:
  assumes a: "a < length h" and vh: "validHeap h" and cl: "childLinks h l"
    and sub: "set cs \<subseteq> set (children (h ! a))"
    and rest: "goodStack h n0 (set l) (Deferred a # rest)"
  shows "goodStack h n0 (set l) (map (\<lambda>kc. Call (snd kc) d) cs @ Deferred a # rest)"
  using sub
proof (induction cs)
  case Nil
  with rest show ?case by simp
next
  case (Cons kc cs)
  obtain k c where kc: "kc = (k, c)" by (cases kc)
  with Cons.prems have m: "(k, c) \<in> set (children (h ! a))" by simp
  from validHeap_child [OF vh a m] have c: "c < length h" by simp
  have "c \<in> set l \<Longrightarrow> parent (h ! c) = Some a" using childLinksD [OF cl a m] .
  then have "goodFrame h n0 (set l) (Call c d) (map (\<lambda>kc. Call (snd kc) d) cs @ Deferred a # rest)"
    using c by (auto simp: goodFrame_def)
  with Cons kc show ?case by simp
qed

lemma Bx_drop_absent: "Bx h l (insert a E) \<Longrightarrow> a \<notin> set l \<Longrightarrow> Bx h l E"
  by (auto simp: Bx_def)

lemma Bx_Deferred:
  assumes d: "distinct l" and b: "Bx h l (pend h (Deferred a # rest) \<union> {n0})"
    and g: "goodFrame h n0 (set l) (Deferred a) rest"
  shows "Bx h (MoveToFront a l) (pend h rest \<union> {n0})"
proof -
  let ?E = "pend h (Deferred a # rest) \<union> {n0}"
  have 1: "Bx h (MoveToFront a l) (insert a (?E - {x. parent (h ! x) = Some a}))"
    by (rule Bx_MoveToFront [OF d b])
  have sub: "?E - {x. parent (h ! x) = Some a} \<subseteq> pend h rest \<union> {n0}"
    by (auto simp: pend_def)
  have 2: "Bx h (MoveToFront a l) (insert a (pend h rest \<union> {n0}))"
    by (rule Bx_mono [OF 1]) (use sub in blast)
  from g have "a = n0 \<or> a \<notin> set l \<or> a \<in> pend h rest"
    by (auto simp: goodFrame_def pend_def)
  then show ?thesis
  proof (elim disjE)
    assume "a = n0"
    with 2 show ?thesis by (simp add: insert_absorb)
  next
    assume "a \<notin> set l"
    then have "a \<notin> set (MoveToFront a l)" by simp
    from Bx_drop_absent [OF 2 this] show ?thesis .
  next
    assume "a \<in> pend h rest"
    with 2 show ?thesis by (simp add: insert_absorb)
  qed
qed

lemma childLinks_set: "set l' = set l \<Longrightarrow> childLinks h l' = childLinks h l"
  by (simp add: childLinks_def)

lemma traverse_Bx:
  assumes "traverse ord h md stack calls l = Some r"
  shows "rangeOrder ord \<Longrightarrow> distinct l \<Longrightarrow> validHeap h \<Longrightarrow> childLinks h l \<Longrightarrow>
         goodStack h n0 (set l) stack \<Longrightarrow> Bx h l (pend h stack \<union> {n0}) \<Longrightarrow>
         distinct (snd r) \<and> set (snd r) = set l \<and> Bx h (snd r) {n0}"
  using assms
proof (induction ord h md stack calls l r rule: traverse.raw_induct [rotated 1, consumes 1])
  case (1 traverse ord h md stack calls l r)
  note IH = 1(1) and body = 1(2) and ro = 1(3) and d = 1(4) and vh = 1(5) and cl = 1(6)
    and gs = 1(7) and bx = 1(8)
  show ?case
  proof (cases stack)
    case Nil
    with body bx show ?thesis using d by (auto simp: pend_def)
  next
    case (Cons fr rest)
    show ?thesis
    proof (cases fr)
      case (Call a dd)
      from gs Cons Call have ga: "goodFrame h n0 (set l) (Call a dd) rest"
        and gr: "goodStack h n0 (set l) rest" by simp_all
      have a: "a < length h" using ga by (simp add: goodFrame_def)
      have gd: "goodStack h n0 (set l) (Deferred a # rest)"
        using ga gr by (simp add: goodFrame_def)
      show ?thesis
      proof (cases "0 \<le> md \<and> md \<le> dd")
        case True
        with body Cons Call
        have r: "traverse ord h md (Deferred a # rest) (calls @ [cacheNodeOf h a]) l = Some r"
          by simp
        have b': "Bx h l (pend h (Deferred a # rest) \<union> {n0})"
          by (rule Bx_mono [OF bx]) (auto simp: pend_def Cons Call)
        from IH [OF r ro d vh cl gd b'] show ?thesis .
      next
        case False
        let ?st = "map (\<lambda>kc. Call (snd kc) (dd + 1)) (ord a (children (h ! a)))
                     @ Deferred a # rest"
        from False body Cons Call
        have r: "traverse ord h md ?st (calls @ [cacheNodeOf h a]) l = Some r"
          by auto
        have g': "goodStack h n0 (set l) ?st"
          by (rule goodStack_children [OF a vh cl _ gd]) (simp add: rangeOrder_set [OF ro])
        have b': "Bx h l (pend h ?st \<union> {n0})"
          by (rule Bx_mono [OF bx]) (auto simp: pend_def Cons Call)
        from IH [OF r ro d vh cl g' b'] show ?thesis .
      qed
    next
      case (Deferred a)
      from gs Cons Deferred have ga: "goodFrame h n0 (set l) (Deferred a) rest"
        and gr: "goodStack h n0 (set l) rest" by simp_all
      from body Cons Deferred
      have r: "traverse ord h md rest calls (MoveToFront a l) = Some r" by simp
      have b': "Bx h (MoveToFront a l) (pend h rest \<union> {n0})"
        using Bx_Deferred [OF d _ ga] bx Cons Deferred by simp
      have cl': "childLinks h (MoveToFront a l)"
        using cl childLinks_set [of "MoveToFront a l" l h] by simp
      have gr': "goodStack h n0 (set (MoveToFront a l)) rest" using gr by simp
      from IH [OF r ro distinct_MoveToFront [OF d] vh cl' gr' b'] show ?thesis by simp
    qed
  qed
qed

lemma Bx_single_Pn: "Bx h l {n} \<Longrightarrow> Bx h l (Pn h (parent (h ! n)))"
  by (cases "parent (h ! n)") (fastforce simp: Bx_def Pn_def)+

lemma INV_TraverseSubtree:
  assumes i: "INV c" and ro: "rangeOrder ord"
    and t: "TraverseSubtree ord c k md = Some (c', r)"
  shows "INV c'"
proof (cases "map_of (keysMap c) k")
  case None
  with t i show ?thesis by (auto simp: TraverseSubtree_def)
next
  case (Some n)
  with t obtain calls l1 l2
    where tr: "traverse ord (heap c) md [Call n 0] [] (lruList c) = Some (calls, l1)"
      and pr: "promote (heap c) (parent (heap c ! n)) l1 = Some l2"
      and c': "c' = c\<lparr>lruList := l2, stats := stats c @ [IncHits]\<rparr>"
    by (auto simp: TraverseSubtree_def split: option.splits)
  have i0: "inv0 (heap c) (lruList c) (keysMap c) {}" using i by (simp add: INV_def)
  from map_of_live [OF i Some] have n: "n < length (heap c)" by simp
  have g: "goodStack (heap c) n (set (lruList c)) [Call n 0]"
    using n by (simp add: goodFrame_def)
  have b: "Bx (heap c) (lruList c) (pend (heap c) [Call n 0] \<union> {n})"
    by (rule Bx_mono [OF inv0_parts(5) [OF i0]]) simp
  from traverse_Bx [OF tr ro inv0_parts(1) [OF i0] inv0_parts(3) [OF i0] inv0_parts(6) [OF i0] g b]
  have d1: "distinct l1" and s1: "set l1 = set (lruList c)" and b1: "Bx (heap c) l1 {n}"
    by simp_all
  have "inv0 (heap c) l1 (keysMap c) (Pn (heap c) (parent (heap c ! n)))"
    unfolding inv0_def
    using d1 s1 Bx_single_Pn [OF b1] inv0_parts(2) [OF i0] inv0_parts(3) [OF i0]
      inv0_parts(4) [OF i0] inv0_parts(6) [OF i0]
    by (simp add: liveInList_def childLinks_def)
  from inv0_promote [OF this pr] show ?thesis by (simp add: INV_def c')
qed

lemma promoteAndEvict_evictStateOf:
  "promoteAndEvict c n = Some (c', e, cb) \<Longrightarrow>
   (case evictStateOf c n of
      Some cE \<Rightarrow>
        c' = (fst (evict cE))\<lparr>stats := stats cE @ [SetAmount (int (length (keysMap (fst (evict cE)))))]\<rparr>
        \<and> cb = (if onEvict c then (case snd (evict cE) of None \<Rightarrow> [] | Some x \<Rightarrow> [x]) else [])
    | None \<Rightarrow>
        cb = [] \<and> promoteAncestors c n
                   = Some (c'\<lparr>stats := stats c\<rparr>))"
  by (auto simp: promoteAndEvict_def evictStateOf_def evictIfOver_def Let_def stats_evict
        promoteAncestors_def
      split: option.splits if_splits)

lemma INV_evictStateOf: "READY c n \<Longrightarrow> evictStateOf c n = Some cE \<Longrightarrow> INV cE \<and> lruList cE \<noteq> []"
  by (auto simp: evictStateOf_def split: option.splits if_splits dest: INV_promoteAncestors)

lemma INV_evictArg:
  assumes i: "INV c" and e: "evictArg c x = Some cE"
  shows "INV cE \<and> lruList cE \<noteq> []"
proof (cases x)
  case (OpAdd k v pk)
  with e obtain p where kp: "map_of (keysMap c) pk = Some p"
    and s: "evictStateOf (insertNode c k v p) (length (heap c)) = Some cE"
    by (auto split: option.splits if_splits)
  from INV_evictStateOf [OF READY_insertNode [OF i kp] s] show ?thesis .
next
  case (OpAddOrUpdate k v pk)
  with e obtain p where kp: "map_of (keysMap c) pk = Some p"
    by (auto split: option.splits)
  show ?thesis
  proof (cases "map_of (keysMap c) k")
    case None
    with e kp OpAddOrUpdate
    have s: "evictStateOf (insertNode c k v p) (length (heap c)) = Some cE" by simp
    from INV_evictStateOf [OF READY_insertNode [OF i kp] s] show ?thesis .
  next
    case (Some n)
    show ?thesis
    proof (cases "parent (heap c ! n) = Some p")
      case True
      with e kp Some OpAddOrUpdate
      have s: "evictStateOf (updateNode c v n) n = Some cE" by simp
      from INV_evictStateOf [OF READY_update [OF i Some True] s] show ?thesis .
    next
      case False
      with e kp Some OpAddOrUpdate
      have s: "evictStateOf (relinkNode c k v n p) n = Some cE"
        by (auto split: option.splits bool.splits)
      from INV_evictStateOf [OF READY_relink [OF i Some kp] s] show ?thesis .
    qed
  qed
qed (use e in simp_all)

lemma INV_apply_op:
  assumes i: "INV c" and ad: "admissible x" and a: "apply_op c x = Some c'"
  shows "INV c'"
proof (cases x)
  case (OpAddRoot k v)
  with a INV_AddRoot [OF i, of k v] show ?thesis by auto
next
  case (OpAdd k v pk)
  with a obtain r where "Add c k v pk = Some (c', r)" by auto
  then show ?thesis using INV_Add [OF i, of k v pk c' "fst r" "snd r"] by simp
next
  case (OpAddOrUpdate k v pk)
  with a obtain r where "AddOrUpdate c k v pk = Some (c', r)" by auto
  then show ?thesis using INV_AddOrUpdate [OF i, of k v pk c' "fst r" "snd r"] by simp
next
  case (OpGet k)
  with a obtain r where "Get c k = Some (c', r)" by auto
  then show ?thesis by (rule INV_Get [OF i])
next
  case (OpPeek k)
  with a INV_Peek [OF i, of k] show ?thesis by auto
next
  case (OpGetBranch k)
  with a obtain r where "GetBranch c k = Some (c', r)" by auto
  then show ?thesis by (rule INV_GetBranch [OF i])
next
  case (OpPeekBranch k)
  with a obtain r where "PeekBranch c k = Some (c', r)" by auto
  then show ?thesis by (rule INV_PeekBranch [OF i])
next
  case (OpTraverseToRoot k)
  with a obtain r where "TraverseToRoot c k = Some (c', r)" by auto
  then show ?thesis by (rule INV_TraverseToRoot [OF i])
next
  case (OpTraverseSubtree k d ord)
  with a obtain r where "TraverseSubtree ord c k d = Some (c', r)" by auto
  moreover have "rangeOrder ord" using ad OpTraverseSubtree by simp
  ultimately show ?thesis using INV_TraverseSubtree [OF i] by blast
next
  case (OpRemove k ord)
  with a obtain r where "Remove ord c k = Some (c', r)" by auto
  then show ?thesis by (rule INV_Remove [OF i])
qed

lemma INV_run: "INV c \<Longrightarrow> list_all admissible ops \<Longrightarrow> run c ops = Some c' \<Longrightarrow> INV c'"
proof (induction ops arbitrary: c)
  case Nil
  then show ?case by simp
next
  case (Cons x xs)
  from Cons.prems(3) obtain c1 where 1: "apply_op c x = Some c1" and 2: "run c1 xs = Some c'"
    by (auto split: option.splits)
  from Cons.prems(2) have ax: "admissible x" and axs: "list_all admissible xs" by simp_all
  from Cons.IH [OF INV_apply_op [OF Cons.prems(1) ax 1] axs 2] show ?case .
qed

lemma INV_tail_leaf:
  assumes i: "INV c" and ne: "lruList c \<noteq> []"
  shows "(\<forall>x\<in>set (lruList c). parent (heap c ! x) \<noteq> Some (last (lruList c)))
         \<and> (\<forall>k a. map_of (keysMap c) k = Some a \<longrightarrow>
               parent (heap c ! a) \<noteq> Some (last (lruList c)))"
proof -
  have i0: "inv0 (heap c) (lruList c) (keysMap c) {}" using i by (simp add: INV_def)
  have 1: "parent (heap c ! x) \<noteq> Some (last (lruList c))" if x: "x \<in> set (lruList c)" for x
  proof
    assume pa: "parent (heap c ! x) = Some (last (lruList c))"
    from ne have t: "last (lruList c) \<in> set (lruList c)" by simp
    from BxD [OF inv0_parts(5) [OF i0] x pa t] have "before (lruList c) (last (lruList c)) x"
      by simp
    with before_not_last [OF inv0_parts(1) [OF i0]] show False by blast
  qed
  have 2: "parent (heap c ! a) \<noteq> Some (last (lruList c))"
    if "map_of (keysMap c) k = Some a" for k a
    using 1 [of a] map_of_live [OF i that] by simp
  from 1 2 show ?thesis by blast
qed

lemma Add_evictArg:
  "Add c k v pk = Some (c', None, cb) \<Longrightarrow>
   (case evictArg c (OpAdd k v pk) of
      Some cE \<Rightarrow>
        c' = (fst (evict cE))\<lparr>stats := stats cE @ [SetAmount (int (length (keysMap (fst (evict cE)))))]\<rparr>
        \<and> cb = (if onEvict c then (case snd (evict cE) of None \<Rightarrow> [] | Some x \<Rightarrow> [x]) else [])
    | None \<Rightarrow> cb = [])"
  by (auto simp: Add_def insertNode_fields split: option.splits if_splits
      dest!: promoteAndEvict_evictStateOf)

lemma AddOrUpdate_evictArg:
  "AddOrUpdate c k v pk = Some (c', None, cb) \<Longrightarrow>
   (case evictArg c (OpAddOrUpdate k v pk) of
      Some cE \<Rightarrow>
        c' = (fst (evict cE))\<lparr>stats := stats cE @ [SetAmount (int (length (keysMap (fst (evict cE)))))]\<rparr>
        \<and> cb = (if onEvict c then (case snd (evict cE) of None \<Rightarrow> [] | Some x \<Rightarrow> [x]) else [])
    | None \<Rightarrow> cb = [])"
  by (auto simp: AddOrUpdate_def insertNode_fields relinkNode_def updateNode_def Let_def
      split: option.splits if_splits bool.splits
      dest!: promoteAndEvict_evictStateOf)

text \<open>
  The node at the back of the recency list at an eviction. Take any cache \<open>c\<close> reached
  from a new cache by a sequence of public calls (\<open>AddRoot\<close>, \<open>Add\<close>, \<open>AddOrUpdate\<close>,
  \<open>Get\<close>, \<open>Peek\<close>, \<open>GetBranch\<close>, \<open>PeekBranch\<close>, \<open>TraverseToRoot\<close>, \<open>TraverseSubtree\<close>,
  \<open>Remove\<close>) with admissible iteration orders, and any call of \<open>Add\<close> or \<open>AddOrUpdate\<close>
  on \<open>c\<close> that calls \<open>evict\<close>, on a cache \<open>cE\<close>. Then the recency list of \<open>cE\<close> is not
  empty, and its back element is the parent of no node of the recency list and of no
  entry of the key table. This is a statement about the node at the back of the list
  only. The key that \<open>evict\<close> deletes from the key table and from the children map of
  the parent can be registered with another node, which has children (as in
  \<open>shadowedAtEvict\<close>), and the children map of the node at the back can still hold
  removed nodes (as in \<open>staleChildAtEvict\<close>).
\<close>

lemma back_node_is_no_parent:
  assumes r: "run (NewCache m cb) ops = Some c" and ad: "list_all admissible ops"
    and e: "evictArg c x = Some cE"
  shows "lruList cE \<noteq> []
         \<and> (\<forall>y\<in>set (lruList cE). parent (heap cE ! y) \<noteq> Some (last (lruList cE)))
         \<and> (\<forall>k a. map_of (keysMap cE) k = Some a \<longrightarrow>
               parent (heap cE ! a) \<noteq> Some (last (lruList cE)))"
proof -
  have "INV c" by (rule INV_run [OF INV_NewCache ad r])
  from INV_evictArg [OF this e] have i: "INV cE" and ne: "lruList cE \<noteq> []" by simp_all
  from INV_tail_leaf [OF i ne] ne show ?thesis by simp
qed

lemma back_node_is_no_parent_example:
  "run (NewCache 3 True)
     [OpAddRoot 1 10, OpAdd 2 20 1, OpAdd 3 30 2, OpRemove 3 insertionOrder, OpAdd 3 31 1,
      OpRemove 2 insertionOrder, OpAdd 3 32 1] = Some shadowedCache
   \<and> evictArg shadowedCache (OpAdd 7 70 3) = Some shadowedAtEvict
   \<and> last (lruList shadowedAtEvict) = 3
   \<and> parent (heap shadowedAtEvict ! 5) \<noteq> Some (last (lruList shadowedAtEvict))
   \<and> parent (heap shadowedAtEvict ! 5) = map_of (keysMap shadowedAtEvict) 3"
proof -
  have h1: "run (NewCache 3 True)
     [OpAddRoot 1 10, OpAdd 2 20 1, OpAdd 3 30 2, OpRemove 3 insertionOrder, OpAdd 3 31 1,
      OpRemove 2 insertionOrder, OpAdd 3 32 1] = Some shadowedCache"
    by code_simp
  have ad: "list_all admissible
     [OpAddRoot 1 10, OpAdd 2 20 1, OpAdd 3 30 2, OpRemove 3 insertionOrder, OpAdd 3 31 1,
      OpRemove 2 insertionOrder, OpAdd (3::nat) (32::nat) 1]"
    by (simp add: rangeOrder_insertionOrder)
  have h2: "evictArg shadowedCache (OpAdd 7 70 3) = Some shadowedAtEvict" by code_simp
  have h3: "last (lruList shadowedAtEvict) = 3" by code_simp
  have h4: "parent (heap shadowedAtEvict ! 5) = map_of (keysMap shadowedAtEvict) 3"
    by code_simp
  have m: "5 \<in> set (lruList shadowedAtEvict)" by code_simp
  note t = back_node_is_no_parent [OF h1 ad h2]
  from t have all: "\<forall>y\<in>set (lruList shadowedAtEvict).
      parent (heap shadowedAtEvict ! y) \<noteq> Some (last (lruList shadowedAtEvict))"
    by (rule conjunct1 [OF conjunct2])
  show ?thesis
    using h1 h2 h3 h4 all [rule_format, OF m] by (intro conjI)
qed

end
